theory Spec2Isabelle
  imports Complex_Main
begin

section \<open>DOM geometry helpers (src/dom/query.ts)\<close>

text \<open>
  The two helpers read the bounding rectangle of DOM nodes and, for the second one,
  write the vertical scroll offset of one node. A node is a record holding what the
  functions read or could write; the document is a store from node identities to nodes,
  so that the case of \<open>area\<close> and \<open>elem\<close> being the same node is a case of the model.
  JavaScript numbers are modelled as reals: exact arithmetic, no NaN and no infinities;
  and a write of \<open>scrollTop\<close> stores the number written, where a browser rounds the
  results of the arithmetic and clamps the number written to the scrollable range. What
  is stated below about the scroll offset after a call is therefore limited to what does
  not depend on the exact number stored: whether the document changes, and in which
  direction the offset moves.
\<close>

record DOMRect =
  rect_left :: real
  rect_top :: real
  rect_right :: real
  rect_bottom :: real

record Element =
  boundingClientRect :: DOMRect
  scrollTop :: real
  scrollLeft :: real

type_synonym document = "nat \<Rightarrow> Element"

definition getBoundingClientRect :: "Element \<Rightarrow> DOMRect" where
  "getBoundingClientRect node = boundingClientRect node"

text \<open>query.ts, lines 37 to 46.\<close>

definition hitTest :: "Element \<Rightarrow> real \<Rightarrow> real \<Rightarrow> bool" where
  "hitTest node clientX clientY =
     (let rect = getBoundingClientRect node in
        clientX \<ge> rect_left rect \<and>
        clientX < rect_right rect \<and>
        clientY \<ge> rect_top rect \<and>
        clientY < rect_bottom rect)"

text \<open>
  query.ts, lines 88 to 97. The compound assignments \<open>area.scrollTop -= e\<close> and
  \<open>area.scrollTop += e\<close> read the field and write the difference or the sum back.
  The parameter \<open>threshold\<close> has the default value zero.
\<close>

definition scrollIfNeeded :: "document \<Rightarrow> nat \<Rightarrow> nat \<Rightarrow> real \<Rightarrow> document" where
  "scrollIfNeeded doc area elem threshold =
     (let ar = getBoundingClientRect (doc area);
          er = getBoundingClientRect (doc elem) in
        if rect_top er < rect_top ar - threshold then
          doc(area := (doc area)\<lparr>scrollTop :=
            scrollTop (doc area) - (rect_top ar - rect_top er + threshold)\<rparr>)
        else if rect_bottom er > rect_bottom ar + threshold then
          doc(area := (doc area)\<lparr>scrollTop :=
            scrollTop (doc area) + (rect_bottom er - rect_bottom ar + threshold)\<rparr>)
        else doc)"

definition scrollIfNeeded_default :: "document \<Rightarrow> nat \<Rightarrow> nat \<Rightarrow> document" where
  "scrollIfNeeded_default doc area elem = scrollIfNeeded doc area elem 0"





definition unit_square_node :: Element where
  "unit_square_node =
     \<lparr>boundingClientRect = \<lparr>rect_left = 0, rect_top = 0, rect_right = 100, rect_bottom = 100\<rparr>,
      scrollTop = 0, scrollLeft = 0\<rparr>"


text \<open>
  The same document with the horizontal extent of the rectangle of one node replaced.
\<close>

definition set_horizontal :: "document \<Rightarrow> nat \<Rightarrow> real \<Rightarrow> real \<Rightarrow> document" where
  "set_horizontal doc n l r =
     doc(n := (doc n)\<lparr>boundingClientRect := (boundingClientRect (doc n))\<lparr>rect_left := l, rect_right := r\<rparr>\<rparr>)"

section \<open>The chain combinator (src/algorithm/chain.ts)\<close>

subsection \<open>Values and objects\<close>

text \<open>
  The type parameter \<open>T\<close> of the source is unconstrained and \<open>next(): T\<close> returns
  \<open>void 0\<close> for exhaustion, so a value of type \<open>T\<close> is either the JavaScript value
  \<open>undefined\<close> or a proper value; an array of \<open>T\<close> may hold \<open>undefined\<close>.
\<close>

datatype 'a jsval = Undefined | Val 'a

text \<open>
  Iterators are mutable objects that are shared by reference, so they live in a heap and
  are named by their addresses. There are three kinds of objects: iterators over the
  values of one source (\<open>IIterator<T>\<close>), iterators over an array of such iterators
  (\<open>IIterator<IIterator<T>>\<close>, the field \<open>_source\<close> of a chain), and chain iterators.
  Each kind has its own store and its own allocation counter; an address below the
  counter is an object that exists. An array iterator holds its array and a read index.
  The fields \<open>c_source\<close>, \<open>c_active\<close> and \<open>c_cloned\<close> are the private fields
  \<open>_source\<close>, \<open>_active\<close> and \<open>_cloned\<close> of \<open>ChainIterator\<close> (chain.ts, lines 103 to
  105); \<open>None\<close> is \<open>void 0\<close>.
\<close>

record 'e ArrayIterator =
  a_source :: "'e list"
  a_index :: nat

record ChainIterator =
  c_source :: nat
  c_active :: "nat option"
  c_cloned :: bool

record 'a heap =
  sub_objs :: "nat \<Rightarrow> 'a jsval ArrayIterator"
  sub_count :: nat
  outer_objs :: "nat \<Rightarrow> nat ArrayIterator"
  outer_count :: nat
  chain_objs :: "nat \<Rightarrow> ChainIterator"
  chain_count :: nat

definition empty_heap :: "'a heap" where
  "empty_heap =
     \<lparr>sub_objs = (\<lambda>_. \<lparr>a_source = [], a_index = 0\<rparr>), sub_count = 0,
      outer_objs = (\<lambda>_. \<lparr>a_source = [], a_index = 0\<rparr>), outer_count = 0,
      chain_objs = (\<lambda>_. \<lparr>c_source = 0, c_active = None, c_cloned = False\<rparr>),
      chain_count = 0\<rparr>"

subsection \<open>The array adapter\<close>

text \<open>
  Modelled from the spec: the allocation of a new iterator over the values of a source.
  The constructor of the adapter is in iterable.ts, which is not part of the sources
  at hand.
\<close>

definition new_sub :: "'a heap \<Rightarrow> 'a jsval ArrayIterator \<Rightarrow> nat \<times> 'a heap" where
  "new_sub h it =
     (sub_count h,
      h\<lparr>sub_objs := (sub_objs h)(sub_count h := it),
        sub_count := Suc (sub_count h)\<rparr>)"

text \<open>
  Modelled from the spec: the allocation of a new iterator over an array of iterators
  (iterable.ts is missing).
\<close>

definition new_outer :: "'a heap \<Rightarrow> nat ArrayIterator \<Rightarrow> nat \<times> 'a heap" where
  "new_outer h it =
     (outer_count h,
      h\<lparr>outer_objs := (outer_objs h)(outer_count h := it),
        outer_count := Suc (outer_count h)\<rparr>)"

text \<open>
  Modelled from the spec: \<open>next()\<close> of the iterator over a finite sequence, which tracks a
  read cursor: it returns the element under the cursor and advances, or returns the
  exhausted signal \<open>undefined\<close> and changes nothing when the sequence has ended
  (iterable.ts is missing).
\<close>

definition sub_next :: "'a heap \<Rightarrow> nat \<Rightarrow> 'a jsval \<times> 'a heap" where
  "sub_next h r =
     (let it = sub_objs h r in
        if a_index it \<ge> length (a_source it) then (Undefined, h)
        else (a_source it ! a_index it,
              h\<lparr>sub_objs := (sub_objs h)(r := it\<lparr>a_index := a_index it + 1\<rparr>)\<rparr>))"

text \<open>
  Modelled from the spec: \<open>clone()\<close> of the iterator over a finite sequence copies the
  cursor together with a reference to the same backing sequence, into a new object
  (iterable.ts is missing).
\<close>

definition sub_clone :: "'a heap \<Rightarrow> nat \<Rightarrow> nat \<times> 'a heap" where
  "sub_clone h r =
     new_sub h \<lparr>a_source = a_source (sub_objs h r), a_index = a_index (sub_objs h r)\<rparr>"

text \<open>
  Modelled from the spec: \<open>next()\<close> of the iterator over the array of sub-iterators; the
  elements are object references, which are never \<open>undefined\<close> (iterable.ts is missing).
\<close>

definition outer_next :: "'a heap \<Rightarrow> nat \<Rightarrow> nat option \<times> 'a heap" where
  "outer_next h r =
     (let it = outer_objs h r in
        if a_index it \<ge> length (a_source it) then (None, h)
        else (Some (a_source it ! a_index it),
              h\<lparr>outer_objs := (outer_objs h)(r := it\<lparr>a_index := a_index it + 1\<rparr>)\<rparr>))"

text \<open>
  Modelled from the spec: \<open>clone()\<close> of the iterator over the array of sub-iterators. The
  copy reads the same array, so it yields the same sub-iterator objects as the original
  (iterable.ts is missing).
\<close>

definition outer_clone :: "'a heap \<Rightarrow> nat \<Rightarrow> nat \<times> 'a heap" where
  "outer_clone h r =
     new_outer h \<lparr>a_source = a_source (outer_objs h r), a_index = a_index (outer_objs h r)\<rparr>"

text \<open>
  Modelled from the spec: \<open>iter\<close> applied to an array of values gives a new iterator at
  its start (iterable.ts is missing).
\<close>

definition iter_array :: "'a heap \<Rightarrow> 'a jsval list \<Rightarrow> nat \<times> 'a heap" where
  "iter_array h xs = new_sub h \<lparr>a_source = xs, a_index = 0\<rparr>"

text \<open>
  Modelled from the spec: \<open>iter\<close> applied to the array of sub-iterators
  (iterable.ts is missing).
\<close>

definition iter_iterators :: "'a heap \<Rightarrow> nat list \<Rightarrow> nat \<times> 'a heap" where
  "iter_iterators h rs = new_outer h \<lparr>a_source = rs, a_index = 0\<rparr>"

text \<open>
  A source handed to \<open>chain\<close> is an \<open>Iterable<T>\<close>: an array of values, or an iterator
  that exists already and is handed over by reference. The iterators over values of this
  model are the array iterators of the heap; a chain iterator used as a source of another
  chain is outside the model.
\<close>

datatype 'a iterable = ArrayLike "'a jsval list" | Iterator nat

text \<open>
  Modelled from the spec: \<open>iter\<close> applied to an iterable calls its method \<open>iter()\<close>. An
  array gets a new iterator at its start; an iterator is its own iterable and returns
  itself, as \<open>iter()\<close> of \<open>ChainIterator\<close> does (chain.ts, lines 59 to 61), so no object
  is created for it (iterable.ts is missing).
\<close>

definition iter :: "'a heap \<Rightarrow> 'a iterable \<Rightarrow> nat \<times> 'a heap" where
  "iter h object =
     (case object of
        ArrayLike xs \<Rightarrow> iter_array h xs
      | Iterator r \<Rightarrow> (r, h))"

text \<open>
  \<open>objects.map(iter)\<close> of chain.ts, line 35: the iterator of each source, in order.
\<close>

fun map_iterables :: "'a heap \<Rightarrow> 'a iterable list \<Rightarrow> nat list \<times> 'a heap" where
  "map_iterables h [] = ([], h)"
| "map_iterables h (object # objects) =
     (let (r, h1) = iter h object;
          (rs, h2) = map_iterables h1 objects
      in (r # rs, h2))"

text \<open>
  The sources of a chain that are iterators, in order.
\<close>

fun iterators_of :: "'a iterable list \<Rightarrow> nat list" where
  "iterators_of [] = []"
| "iterators_of (ArrayLike xs # objects) = iterators_of objects"
| "iterators_of (Iterator r # objects) = r # iterators_of objects"

text \<open>
  \<open>objects.map(iter)\<close> when every source is an array of values: one new iterator per
  source, in order.
\<close>

fun map_iter :: "'a heap \<Rightarrow> 'a jsval list list \<Rightarrow> nat list \<times> 'a heap" where
  "map_iter h [] = ([], h)"
| "map_iter h (xs # objects) =
     (let (r, h1) = iter_array h xs;
          (rs, h2) = map_iter h1 objects
      in (r # rs, h2))"

subsection \<open>ChainIterator\<close>

text \<open>
  Field writes, and the constructor (chain.ts, lines 49 to 52, with the initialiser
  \<open>_cloned = false\<close> of line 105).
\<close>

definition set_active :: "'a heap \<Rightarrow> nat \<Rightarrow> nat option \<Rightarrow> 'a heap" where
  "set_active h this a =
     h\<lparr>chain_objs := (chain_objs h)(this := (chain_objs h this)\<lparr>c_active := a\<rparr>)\<rparr>"

definition set_cloned :: "'a heap \<Rightarrow> nat \<Rightarrow> bool \<Rightarrow> 'a heap" where
  "set_cloned h this b =
     h\<lparr>chain_objs := (chain_objs h)(this := (chain_objs h this)\<lparr>c_cloned := b\<rparr>)\<rparr>"

definition new_ChainIterator :: "'a heap \<Rightarrow> nat \<Rightarrow> nat \<times> 'a heap" where
  "new_ChainIterator h source =
     (chain_count h,
      h\<lparr>chain_objs := (chain_objs h)
           (chain_count h := \<lparr>c_source = source, c_active = None, c_cloned = False\<rparr>),
        chain_count := Suc (chain_count h)\<rparr>)"

text \<open>
  \<open>chain\<close> (chain.ts, lines 33 to 36):
  \<open>return new ChainIterator<T>(iter(objects.map(iter)))\<close>. A source that is an iterator
  becomes a sub-iterator of the chain as the object it is: the chain shares it with
  whoever else holds it, and a source listed twice is one object listed twice.
\<close>

definition chain_iterables :: "'a heap \<Rightarrow> 'a iterable list \<Rightarrow> nat \<times> 'a heap" where
  "chain_iterables h objects =
     (let (rs, h1) = map_iterables h objects;
          (s, h2) = iter_iterators h1 rs
      in new_ChainIterator h2 s)"

text \<open>
  \<open>chain\<close> applied to arrays of values, the case in which every sub-iterator is a new
  object: \<open>chain_it h objects\<close> is \<open>chain_iterables h (map ArrayLike objects)\<close>.
\<close>

definition chain_it :: "'a heap \<Rightarrow> 'a jsval list list \<Rightarrow> nat \<times> 'a heap" where
  "chain_it h objects =
     (let (rs, h1) = map_iter h objects;
          (s, h2) = iter_iterators h1 rs
      in new_ChainIterator h2 s)"

text \<open>
  \<open>clone\<close> (chain.ts, lines 71 to 77). The expression
  \<open>this._active && this._active.clone()\<close> is \<open>undefined\<close> when there is no active
  sub-iterator and its clone otherwise.
\<close>

definition ChainIterator_clone :: "'a heap \<Rightarrow> nat \<Rightarrow> nat \<times> 'a heap" where
  "ChainIterator_clone h this =
     (let (s, h1) = outer_clone h (c_source (chain_objs h this));
          (result, h2) = new_ChainIterator h1 s;
          (a, h3) = (case c_active (chain_objs h2 this) of
                       None \<Rightarrow> (None, h2)
                     | Some act \<Rightarrow> (let (a', h') = sub_clone h2 act in (Some a', h')));
          h4 = set_active h3 result a;
          h5 = set_cloned h4 result True;
          h6 = set_cloned h5 this True
      in (result, h6))"

text \<open>
  The first block of \<open>next\<close> (chain.ts, lines 86 to 94). The result \<open>Inl\<close> is the early
  \<open>return void 0\<close> of line 89; the result \<open>Inr\<close> carries the active sub-iterator with
  which line 95 goes on.
\<close>

definition pull_active :: "'a heap \<Rightarrow> nat \<Rightarrow> 'a heap + nat \<times> 'a heap" where
  "pull_active h this =
     (case c_active (chain_objs h this) of
        Some a \<Rightarrow> Inr (a, h)
      | None \<Rightarrow>
          (let (r, h1) = outer_next h (c_source (chain_objs h this));
               h2 = set_active h1 this r
           in case r of
                None \<Rightarrow> Inl h2
              | Some a \<Rightarrow>
                  if c_cloned (chain_objs h2 this) then
                    (let (a', h3) = sub_clone h2 a in Inr (a', set_active h3 this (Some a')))
                  else Inr (a, h2)))"

text \<open>
  \<open>next\<close> (chain.ts, lines 85 to 101). The recursive call of line 100 consumes either the
  active sub-iterator or one more element of the outer iterator, which is the measure of
  its termination.
\<close>

definition remaining :: "'e ArrayIterator \<Rightarrow> 'e list" where
  "remaining it = drop (a_index it) (a_source it)"

definition next_measure :: "'a heap \<Rightarrow> nat \<Rightarrow> nat" where
  "next_measure h this =
     2 * length (remaining (outer_objs h (c_source (chain_objs h this))))
     + (case c_active (chain_objs h this) of None \<Rightarrow> 0 | Some _ \<Rightarrow> 1)"

function ChainIterator_next :: "'a heap \<Rightarrow> nat \<Rightarrow> 'a jsval \<times> 'a heap" where
  "ChainIterator_next h this =
     (case pull_active h this of
        Inl h1 \<Rightarrow> (Undefined, h1)
      | Inr (a, h1) \<Rightarrow>
          (let (v, h2) = sub_next h1 a in
             if v \<noteq> Undefined then (v, h2)
             else ChainIterator_next (set_active h2 this None) this))"
  by pat_completeness auto

text \<open>
  The number of activations of \<open>next\<close> that one call nests: the same recursion as
  \<open>ChainIterator_next\<close>, counting one for the call itself and one for every
  \<open>return this.next()\<close> of line 100.
\<close>

function next_depth :: "'a heap \<Rightarrow> nat \<Rightarrow> nat" where
  "next_depth h this =
     (case pull_active h this of
        Inl h1 \<Rightarrow> 1
      | Inr (a, h1) \<Rightarrow>
          (let (v, h2) = sub_next h1 a in
             if v \<noteq> Undefined then 1
             else 1 + next_depth (set_active h2 this None) this))"
  by pat_completeness auto

text \<open>
  \<open>n\<close> calls of \<open>next\<close> in a row on one chain, with the values they return.
\<close>

fun nexts :: "nat \<Rightarrow> 'a heap \<Rightarrow> nat \<Rightarrow> 'a jsval list \<times> 'a heap" where
  "nexts 0 h c = ([], h)"
| "nexts (Suc n) h c =
     (let (v, h1) = ChainIterator_next h c;
          (vs, h2) = nexts n h1 c
      in (v # vs, h2))"

text \<open>
  Modelled from the spec: draining an iterator, as \<open>toArray\<close> of the example in chain.ts
  (lines 23 to 30) does: \<open>next\<close> is called until it returns the exhausted signal, and the
  values before it are collected in order (iterable.ts, which defines \<open>toArray\<close>, is
  missing).
\<close>

function toArray :: "'a heap \<Rightarrow> nat \<Rightarrow> 'a jsval list \<times> 'a heap" where
  "toArray h it =
     (let (v, h1) = ChainIterator_next h it in
        if v \<noteq> Undefined then
          (let (result, h2) = toArray h1 it in (v # result, h2))
        else ([], h1))"
  by pat_completeness auto

subsection \<open>Observers of a heap\<close>

text \<open>
  What a chain holds: its active sub-iterator, its flag, its outer iterator and the
  sub-iterators that the outer iterator has still to yield; the values that a
  sub-iterator has still to yield; the sub-iterators a chain will read next, in order; and
  whether a sub-iterator signals exhaustion when asked for its next value.
\<close>

definition active :: "'a heap \<Rightarrow> nat \<Rightarrow> nat option" where
  "active h c = c_active (chain_objs h c)"

definition cloned :: "'a heap \<Rightarrow> nat \<Rightarrow> bool" where
  "cloned h c = c_cloned (chain_objs h c)"

definition source_of :: "'a heap \<Rightarrow> nat \<Rightarrow> nat" where
  "source_of h c = c_source (chain_objs h c)"

definition pending :: "'a heap \<Rightarrow> nat \<Rightarrow> nat list" where
  "pending h c = remaining (outer_objs h (source_of h c))"

definition sub_rest :: "'a heap \<Rightarrow> nat \<Rightarrow> 'a jsval list" where
  "sub_rest h r = remaining (sub_objs h r)"

definition upcoming :: "'a heap \<Rightarrow> nat \<Rightarrow> nat list" where
  "upcoming h c = (case active h c of None \<Rightarrow> [] | Some a \<Rightarrow> [a]) @ pending h c"

definition footprint :: "'a heap \<Rightarrow> nat \<Rightarrow> nat set" where
  "footprint h c = set_option (active h c) \<union> set (pending h c)"

definition signals_exhaustion :: "'a heap \<Rightarrow> nat \<Rightarrow> bool" where
  "signals_exhaustion h r = (fst (sub_next h r) = Undefined)"

definition active_left :: "'a heap \<Rightarrow> nat \<Rightarrow> nat" where
  "active_left h c = (case active h c of None \<Rightarrow> 0 | Some a \<Rightarrow> length (sub_rest h a))"

text \<open>
  The sub-iterator objects that a call wrote to, going from heap \<open>h\<close> to heap \<open>h'\<close>:
  those it created and those whose state it changed. The objects a chain may write to
  in place: its active sub-iterator and, as long as its flag is unset, the sub-iterators
  it has still to pull.
\<close>

definition touched :: "'a heap \<Rightarrow> 'a heap \<Rightarrow> nat set" where
  "touched h h' =
     set (filter (\<lambda>r. sub_count h \<le> r \<or> sub_objs h' r \<noteq> sub_objs h r)
            [0 ..< sub_count h'])"

definition own :: "'a heap \<Rightarrow> nat \<Rightarrow> nat set" where
  "own h c = set_option (active h c) \<union> (if cloned h c then {} else set (pending h c))"

subsection \<open>Runs\<close>

text \<open>
  A program that uses chains over arrays is a list of calls: \<open>chain(...objects)\<close> with
  arrays of values as the sources, \<open>c.next()\<close> and \<open>c.clone()\<close> on chains that exist (a
  call on an address that holds no chain cannot be written in the source, and \<open>run\<close>
  passes over it). \<open>run\<close> gives the heap after the calls and the trace of the values that
  the calls of \<open>next\<close> returned, each with its chain. \<open>world cs\<close> is the heap that the
  calls \<open>cs\<close> build from the empty heap. Every chain of such a heap has sub-iterators of
  its own; heaps in which chains share a sub-iterator are built with \<open>chain_iterables\<close>.
\<close>

datatype 'a call = NewChain "'a jsval list list" | CallNext nat | CallClone nat

fun run :: "'a call list \<Rightarrow> 'a heap \<Rightarrow> (nat \<times> 'a jsval) list \<times> 'a heap" where
  "run [] h = ([], h)"
| "run (NewChain objects # cs) h = run cs (snd (chain_it h objects))"
| "run (CallClone c # cs) h =
     (if c < chain_count h then run cs (snd (ChainIterator_clone h c)) else run cs h)"
| "run (CallNext c # cs) h =
     (if c < chain_count h then
        (let (v, h1) = ChainIterator_next h c;
             (tr, h2) = run cs h1
         in ((c, v) # tr, h2))
      else run cs h)"

definition returned :: "nat \<Rightarrow> (nat \<times> 'a jsval) list \<Rightarrow> 'a jsval list" where
  "returned c tr = map snd (filter (\<lambda>e. fst e = c) tr)"

definition calls :: "nat \<Rightarrow> 'a call list \<Rightarrow> nat" where
  "calls c cs = length (filter (\<lambda>x. x = CallNext c) cs)"

definition world :: "'a call list \<Rightarrow> 'a heap" where
  "world cs = snd (run cs empty_heap)"

fun mutated :: "nat \<Rightarrow> 'a call list \<Rightarrow> 'a heap \<Rightarrow> nat set" where
  "mutated c [] h = {}"
| "mutated c (NewChain objects # cs) h = mutated c cs (snd (chain_it h objects))"
| "mutated c (CallClone d # cs) h =
     (if d < chain_count h then mutated c cs (snd (ChainIterator_clone h d)) else mutated c cs h)"
| "mutated c (CallNext d # cs) h =
     (if d < chain_count h then
        (if d = c then touched h (snd (ChainIterator_next h d)) else {})
        \<union> mutated c cs (snd (ChainIterator_next h d))
      else mutated c cs h)"

text \<open>
Sample runs.
\<close>

definition two_by_two :: "int call list" where
  "two_by_two = [NewChain [[Val 1, Val 2], [Val 3, Val 4]], CallNext 0]"

definition fresh_clone :: "int call list" where
  "fresh_clone = [NewChain [[Val 1], [Val 2]], CallClone 0]"

definition two_clones :: "int call list" where
  "two_clones = [NewChain [[Val 1, Val 2], [Val 3, Val 4]], CallNext 0, CallClone 0,
     CallNext 0, CallNext 0]"

definition after_two :: "int call list" where
  "after_two = [NewChain [[], [Val 1, Val 2], [], [], [Val 3, Val 4]], CallNext 0, CallNext 0]"

definition drained_once :: "int call list" where
  "drained_once = [NewChain [[Val 1], []], CallNext 0]"

text \<open>
  Sample heaps with a sub-iterator that is shared: \<open>inner = iter([1, 2])\<close> followed by
  \<open>chain(inner, inner)\<close>, and \<open>inner = iter([1, 2, 3])\<close> followed by \<open>chain(inner)\<close>
  twice. In both the object \<open>inner\<close> is sub-iterator 0, and the chains are numbered from 0
  in the order of their creation. The last one is a heap without sharing whose chain
  has an array and an iterator as its sources: \<open>chain([1], iter([2, 3]))\<close>.
\<close>

definition listed_twice :: "int heap" where
  "listed_twice =
     (let (inner, h) = iter empty_heap (ArrayLike [Val 1, Val 2])
      in snd (chain_iterables h [Iterator inner, Iterator inner]))"

definition shared_source :: "int heap" where
  "shared_source =
     (let (inner, h) = iter empty_heap (ArrayLike [Val 1, Val 2, Val 3]);
          (c, h1) = chain_iterables h [Iterator inner]
      in snd (chain_iterables h1 [Iterator inner]))"

definition array_and_iterator :: "int heap" where
  "array_and_iterator =
     (let (inner, h) = iter empty_heap (ArrayLike [Val 2, Val 3])
      in snd (chain_iterables h [ArrayLike [Val 1], Iterator inner]))"

subsection \<open>The sequence a chain stands for\<close>

text \<open>
  A chain is abstracted to the values its active sub-iterator has still to yield (if it
  has one) and the values of each sub-iterator still to come. \<open>pnext\<close> is \<open>next\<close> on
  this abstraction.
\<close>

definition view :: "'a heap \<Rightarrow> nat \<Rightarrow> 'a jsval list option \<times> 'a jsval list list" where
  "view h c = (map_option (sub_rest h) (active h c), map (sub_rest h) (pending h c))"

function pnext :: "'a jsval list option \<times> 'a jsval list list \<Rightarrow>
    'a jsval \<times> ('a jsval list option \<times> 'a jsval list list)" where
  "pnext (None, []) = (Undefined, (None, []))"
| "pnext (None, xs # xss) = pnext (Some xs, xss)"
| "pnext (Some [], xss) = pnext (None, xss)"
| "pnext (Some (x # xs), xss) = (if x \<noteq> Undefined then (x, (Some xs, xss)) else pnext (None, xss))"
  by pat_completeness auto

fun pnexts :: "nat \<Rightarrow> 'a jsval list option \<times> 'a jsval list list \<Rightarrow>
    'a jsval list \<times> ('a jsval list option \<times> 'a jsval list list)" where
  "pnexts 0 s = ([], s)"
| "pnexts (Suc n) s =
     (let (v, s1) = pnext s;
          (vs, s2) = pnexts n s1
      in (v # vs, s2))"

definition flat :: "'a jsval list option \<times> 'a jsval list list \<Rightarrow> 'a jsval list" where
  "flat s = (case fst s of None \<Rightarrow> [] | Some xs \<Rightarrow> xs) @ concat (snd s)"

definition stack :: "'a jsval list option \<times> 'a jsval list list \<Rightarrow> 'a jsval list list" where
  "stack s = (case fst s of None \<Rightarrow> [] | Some xs \<Rightarrow> [xs]) @ snd s"

definition exhausted :: "'a jsval list \<Rightarrow> bool" where
  "exhausted xs = (case xs of [] \<Rightarrow> True | x # _ \<Rightarrow> x = Undefined)"

subsection \<open>Well-formed heaps\<close>

text \<open>
  A heap without shared sub-iterators: every reference points to an object that exists;
  no two chains share an outer iterator or an active sub-iterator; an active sub-iterator
  is not among the sub-iterators still to be pulled by any chain; and a chain whose flag
  is unset has no sub-iterator twice among those it has still to pull and shares them
  with no other chain (chains whose flags are set may have the same sub-iterators still
  to pull, as a chain and its clone do). It is the invariant of every heap that a run
  builds, and \<open>chain\<close> keeps it for sources that are iterators when each of them exists,
  is listed once and is held by no chain. The three relations describe the effect of
  pulling a sub-iterator, of \<open>chain\<close> over arrays and of \<open>clone\<close> through the observers.
\<close>

definition wf_heap :: "'a heap \<Rightarrow> bool" where
  "wf_heap h =
     ((\<forall>c < chain_count h. source_of h c < outer_count h)
    \<and> (\<forall>c < chain_count h. \<forall>a. active h c = Some a \<longrightarrow> a < sub_count h)
    \<and> (\<forall>c < chain_count h. \<forall>r \<in> set (pending h c). r < sub_count h)
    \<and> (\<forall>c < chain_count h. \<not> cloned h c \<longrightarrow> distinct (pending h c))
    \<and> (\<forall>c < chain_count h. \<forall>c' < chain_count h. c' \<noteq> c \<longrightarrow> source_of h c' \<noteq> source_of h c)
    \<and> (\<forall>c < chain_count h. \<forall>c' < chain_count h. \<forall>a. c' \<noteq> c \<longrightarrow> active h c = Some a \<longrightarrow>
          active h c' \<noteq> Some a)
    \<and> (\<forall>c < chain_count h. \<forall>c' < chain_count h. \<forall>a. active h c = Some a \<longrightarrow>
          a \<notin> set (pending h c'))
    \<and> (\<forall>c < chain_count h. \<forall>c' < chain_count h. c' \<noteq> c \<longrightarrow> \<not> cloned h c \<longrightarrow>
          set (pending h c) \<inter> set (pending h c') = {}))"

definition pulled :: "'a heap \<Rightarrow> nat \<Rightarrow> nat \<Rightarrow> nat list \<Rightarrow> nat \<Rightarrow> 'a heap \<Rightarrow> bool" where
  "pulled h c p ps a h1 =
     (pending h c = p # ps
      \<and> (if cloned h c then a = sub_count h \<and> sub_count h1 = Suc (sub_count h)
          else a = p \<and> sub_count h1 = sub_count h)
      \<and> sub_rest h1 a = sub_rest h p
      \<and> (\<forall>r. r \<noteq> a \<longrightarrow> sub_rest h1 r = sub_rest h r)
      \<and> chain_count h1 = chain_count h \<and> outer_count h1 = outer_count h
      \<and> (\<forall>c'. active h1 c' = (if c' = c then Some a else active h c'))
      \<and> (\<forall>c'. source_of h1 c' = source_of h c' \<and> cloned h1 c' = cloned h c')
      \<and> (\<forall>c'. pending h1 c' = (if source_of h c' = source_of h c then ps else pending h c')))"

definition created :: "'a heap \<Rightarrow> 'a jsval list list \<Rightarrow> nat \<Rightarrow> 'a heap \<Rightarrow> bool" where
  "created h xss c h' =
     (c = chain_count h \<and> chain_count h' = Suc (chain_count h) \<and> outer_count h' = Suc (outer_count h)
      \<and> sub_count h' = sub_count h + length xss
      \<and> (\<forall>d. active h' d = (if d = c then None else active h d))
      \<and> (\<forall>d. cloned h' d = (if d = c then False else cloned h d))
      \<and> (\<forall>d. source_of h' d = (if d = c then outer_count h else source_of h d))
      \<and> (\<forall>d. pending h' d = (if source_of h' d = outer_count h
             then [sub_count h ..< sub_count h + length xss] else pending h d))
      \<and> (\<forall>r < sub_count h. sub_rest h' r = sub_rest h r)
      \<and> map (sub_rest h') [sub_count h ..< sub_count h + length xss] = xss)"

definition copied :: "'a heap \<Rightarrow> nat \<Rightarrow> nat \<Rightarrow> 'a heap \<Rightarrow> bool" where
  "copied h c c2 h' =
     (c2 = chain_count h \<and> chain_count h' = Suc (chain_count h) \<and> outer_count h' = Suc (outer_count h)
      \<and> sub_count h' = (if active h c = None then sub_count h else Suc (sub_count h))
      \<and> (\<forall>d. active h' d =
            (if d = c2 then map_option (\<lambda>_. sub_count h) (active h c) else active h d))
      \<and> (\<forall>d. cloned h' d = (d = c2 \<or> d = c \<or> cloned h d))
      \<and> (\<forall>d. source_of h' d = (if d = c2 then outer_count h else source_of h d))
      \<and> (\<forall>d. pending h' d = (if source_of h' d = outer_count h then pending h c else pending h d))
      \<and> (\<forall>a. active h c = Some a \<longrightarrow> sub_rest h' (sub_count h) = sub_rest h a)
      \<and> (\<forall>r. r \<noteq> sub_count h \<or> active h c = None \<longrightarrow> sub_rest h' r = sub_rest h r))"

section \<open>Properties of the DOM helpers\<close>

text \<open>
  C8. \<open>hitTest\<close> is true exactly on the half-open rectangle: left and top inclusive,
  right and bottom exclusive. On the rectangle from 0 to 100 in both directions it is
  true at (0,0) and (99,99), false at (100,50) and (50,100).
\<close>

theorem hitTest_half_open:
  "hitTest node x y =
     (x \<in> {rect_left (getBoundingClientRect node) ..< rect_right (getBoundingClientRect node)} \<and>
      y \<in> {rect_top (getBoundingClientRect node) ..< rect_bottom (getBoundingClientRect node)})
   \<and> hitTest unit_square_node 0 0
   \<and> hitTest unit_square_node 99 99
   \<and> \<not> hitTest unit_square_node 100 50
   \<and> \<not> hitTest unit_square_node 50 100"
  by (auto simp: hitTest_def getBoundingClientRect_def unit_square_node_def Let_def)




text \<open>
  C10. A call writes at most the field \<open>scrollTop\<close> of the node \<open>area\<close>: the document
  after the call is the document before it with that one field replaced, whatever the
  arguments are. The value written does not depend on the horizontal extent of either
  rectangle, so a horizontal overflow of the element changes nothing.
\<close>

theorem scrollIfNeeded_frame:
  "scrollIfNeeded doc area elem threshold =
     doc(area := (doc area)\<lparr>scrollTop := scrollTop (scrollIfNeeded doc area elem threshold area)\<rparr>)
   \<and> scrollLeft (scrollIfNeeded doc area elem threshold area) = scrollLeft (doc area)
   \<and> boundingClientRect (scrollIfNeeded doc area elem threshold area) = boundingClientRect (doc area)
   \<and> scrollTop (scrollIfNeeded (set_horizontal doc n l r) area elem threshold area) =
       scrollTop (scrollIfNeeded doc area elem threshold area)"
  by (auto simp: scrollIfNeeded_def getBoundingClientRect_def Let_def set_horizontal_def)

section \<open>Lemmas about the chain combinator\<close>

subsection \<open>Termination of next\<close>

lemma pull_active_measure:
  "pull_active h this = Inr (a, h1) \<Longrightarrow> sub_next h1 a = (v, h2) \<Longrightarrow>
     next_measure (set_active h2 this None) this < next_measure h this"
  by (auto simp: pull_active_def next_measure_def remaining_def set_active_def sub_next_def
      outer_next_def sub_clone_def new_sub_def Let_def
      split: option.splits if_splits prod.splits)

termination ChainIterator_next
  by (relation "measure (\<lambda>(h, this). next_measure h this)")
     (auto intro: pull_active_measure [OF _ sym])

declare ChainIterator_next.simps [simp del]

termination pnext
  by (relation "measure (\<lambda>(a, xss). 2 * length xss + (case a of None \<Rightarrow> 0 | Some _ \<Rightarrow> 1))") auto

subsection \<open>The invariant\<close>

lemma wf_heapI:
  assumes "\<And>c. c < chain_count h \<Longrightarrow> source_of h c < outer_count h"
    and "\<And>c a. c < chain_count h \<Longrightarrow> active h c = Some a \<Longrightarrow> a < sub_count h"
    and "\<And>c r. c < chain_count h \<Longrightarrow> r \<in> set (pending h c) \<Longrightarrow> r < sub_count h"
    and "\<And>c. c < chain_count h \<Longrightarrow> \<not> cloned h c \<Longrightarrow> distinct (pending h c)"
    and "\<And>c c'. c < chain_count h \<Longrightarrow> c' < chain_count h \<Longrightarrow> c' \<noteq> c \<Longrightarrow>
           source_of h c' \<noteq> source_of h c"
    and "\<And>c c' a. c < chain_count h \<Longrightarrow> c' < chain_count h \<Longrightarrow> c' \<noteq> c \<Longrightarrow>
           active h c = Some a \<Longrightarrow> active h c' \<noteq> Some a"
    and "\<And>c c' a. c < chain_count h \<Longrightarrow> c' < chain_count h \<Longrightarrow> active h c = Some a \<Longrightarrow>
           a \<notin> set (pending h c')"
    and "\<And>c c'. c < chain_count h \<Longrightarrow> c' < chain_count h \<Longrightarrow> c' \<noteq> c \<Longrightarrow> \<not> cloned h c \<Longrightarrow>
           set (pending h c) \<inter> set (pending h c') = {}"
  shows "wf_heap h"
  unfolding wf_heap_def
proof (intro conjI allI impI ballI)
qed (rule assms; assumption)+

lemma wf_source: "wf_heap h \<Longrightarrow> c < chain_count h \<Longrightarrow> source_of h c < outer_count h"
  by (simp add: wf_heap_def)

lemma wf_active: "wf_heap h \<Longrightarrow> c < chain_count h \<Longrightarrow> active h c = Some a \<Longrightarrow> a < sub_count h"
  by (simp add: wf_heap_def)

lemma wf_pending: "wf_heap h \<Longrightarrow> c < chain_count h \<Longrightarrow> r \<in> set (pending h c) \<Longrightarrow> r < sub_count h"
  by (simp add: wf_heap_def)

lemma wf_distinct: "wf_heap h \<Longrightarrow> c < chain_count h \<Longrightarrow> \<not> cloned h c \<Longrightarrow> distinct (pending h c)"
  by (simp add: wf_heap_def)

lemma wf_sources: "wf_heap h \<Longrightarrow> c < chain_count h \<Longrightarrow> c' < chain_count h \<Longrightarrow> c' \<noteq> c \<Longrightarrow>
    source_of h c' \<noteq> source_of h c"
  by (simp add: wf_heap_def)

lemma wf_actives: "wf_heap h \<Longrightarrow> c < chain_count h \<Longrightarrow> c' < chain_count h \<Longrightarrow> c' \<noteq> c \<Longrightarrow>
    active h c = Some a \<Longrightarrow> active h c' \<noteq> Some a"
  by (simp add: wf_heap_def)

lemma wf_active_pending: "wf_heap h \<Longrightarrow> c < chain_count h \<Longrightarrow> c' < chain_count h \<Longrightarrow>
    active h c = Some a \<Longrightarrow> a \<notin> set (pending h c')"
  by (simp add: wf_heap_def)

lemma wf_disjoint: "wf_heap h \<Longrightarrow> c < chain_count h \<Longrightarrow> c' < chain_count h \<Longrightarrow> c' \<noteq> c \<Longrightarrow>
    \<not> cloned h c \<Longrightarrow> set (pending h c) \<inter> set (pending h c') = {}"
  by (simp add: wf_heap_def)

lemma wf_empty: "wf_heap empty_heap"
  by (simp add: wf_heap_def empty_heap_def)

subsection \<open>The steps of next\<close>

lemma sub_next_frame [simp]:
  "chain_objs (snd (sub_next h a)) = chain_objs h"
  "outer_objs (snd (sub_next h a)) = outer_objs h"
  "chain_count (snd (sub_next h a)) = chain_count h"
  "outer_count (snd (sub_next h a)) = outer_count h"
  "sub_count (snd (sub_next h a)) = sub_count h"
  by (auto simp: sub_next_def Let_def)

lemma sub_next_obs [simp]:
  "active (snd (sub_next h a)) = active h"
  "cloned (snd (sub_next h a)) = cloned h"
  "source_of (snd (sub_next h a)) = source_of h"
  "pending (snd (sub_next h a)) = pending h"
  "footprint (snd (sub_next h a)) = footprint h"
  by (auto simp: fun_eq_iff active_def cloned_def source_of_def pending_def footprint_def)

lemma sub_next_wf: "wf_heap h \<Longrightarrow> wf_heap (snd (sub_next h a))"
  by (simp add: wf_heap_def)

lemma sub_next_rest:
  "sub_next h a = (v, h') \<Longrightarrow>
     (sub_rest h a = [] \<and> v = Undefined \<and> h' = h) \<or>
     (sub_rest h a = v # sub_rest h' a \<and> (\<forall>r. r \<noteq> a \<longrightarrow> sub_rest h' r = sub_rest h r))"
  by (auto simp: sub_next_def Let_def sub_rest_def remaining_def Cons_nth_drop_Suc split: if_splits)

lemma set_active_frame [simp]:
  "sub_objs (set_active h c a) = sub_objs h"
  "outer_objs (set_active h c a) = outer_objs h"
  "chain_count (set_active h c a) = chain_count h"
  "outer_count (set_active h c a) = outer_count h"
  "sub_count (set_active h c a) = sub_count h"
  by (auto simp: set_active_def)

lemma set_active_obs [simp]:
  "active (set_active h c a) c' = (if c' = c then a else active h c')"
  "cloned (set_active h c a) = cloned h"
  "source_of (set_active h c a) = source_of h"
  "pending (set_active h c a) = pending h"
  "sub_rest (set_active h c a) = sub_rest h"
  by (auto simp: fun_eq_iff active_def cloned_def source_of_def pending_def sub_rest_def
      set_active_def)

lemma set_active_None_wf:
  assumes "wf_heap h"
  shows "wf_heap (set_active h c None)"
proof (rule wf_heapI)
  fix d assume "d < chain_count (set_active h c None)"
  then show "source_of (set_active h c None) d < outer_count (set_active h c None)"
    using wf_source [OF assms] by simp
next
  fix d a assume "d < chain_count (set_active h c None)" "active (set_active h c None) d = Some a"
  then show "a < sub_count (set_active h c None)"
    using wf_active [OF assms] by (simp split: if_splits)
next
  fix d r assume "d < chain_count (set_active h c None)" "r \<in> set (pending (set_active h c None) d)"
  then show "r < sub_count (set_active h c None)"
    using wf_pending [OF assms] by simp
next
  fix d assume "d < chain_count (set_active h c None)" "\<not> cloned (set_active h c None) d"
  then show "distinct (pending (set_active h c None) d)"
    using wf_distinct [OF assms] by simp
next
  fix d d' assume "d < chain_count (set_active h c None)" "d' < chain_count (set_active h c None)" "d' \<noteq> d"
  then show "source_of (set_active h c None) d' \<noteq> source_of (set_active h c None) d"
    using wf_sources [OF assms] by simp
next
  fix d d' a assume "d < chain_count (set_active h c None)" "d' < chain_count (set_active h c None)" "d' \<noteq> d"
    "active (set_active h c None) d = Some a"
  then show "active (set_active h c None) d' \<noteq> Some a"
    using wf_actives [OF assms, of d d' a] by (simp split: if_splits)
next
  fix d d' a assume "d < chain_count (set_active h c None)" "d' < chain_count (set_active h c None)"
    "active (set_active h c None) d = Some a"
  then show "a \<notin> set (pending (set_active h c None) d')"
    using wf_active_pending [OF assms, of d d' a] by (simp split: if_splits)
next
  fix d d' assume "d < chain_count (set_active h c None)" "d' < chain_count (set_active h c None)" "d' \<noteq> d"
    "\<not> cloned (set_active h c None) d"
  then show "set (pending (set_active h c None) d) \<inter> set (pending (set_active h c None) d') = {}"
    using wf_disjoint [OF assms, of d d'] by simp
qed

lemma pull_active_Some:
  "active h c = Some a \<Longrightarrow> pull_active h c = Inr (a, h)"
  by (simp add: pull_active_def active_def)

lemma drop_eq_ConsD:
  assumes "drop i xs = p # ps"
  shows "i < length xs \<and> xs ! i = p \<and> drop (Suc i) xs = ps"
proof -
  have lt: "i < length xs"
    using assms by (cases "i < length xs") auto
  from Cons_nth_drop_Suc [OF lt] assms show ?thesis
    using lt by simp
qed

lemma set_active_same: "set_active h c (active h c) = h"
proof -
  have "(chain_objs h c)\<lparr>c_active := c_active (chain_objs h c)\<rparr> = chain_objs h c"
    by simp
  then have "(chain_objs h)(c := (chain_objs h c)\<lparr>c_active := c_active (chain_objs h c)\<rparr>) = chain_objs h"
    by simp
  then show ?thesis
    by (simp add: set_active_def active_def)
qed

lemma pull_active_Nil:
  assumes "active h c = None" "pending h c = []"
  shows "pull_active h c = Inl h"
proof -
  from assms(2) have "outer_next h (c_source (chain_objs h c)) = (None, h)"
    by (simp add: pending_def source_of_def remaining_def outer_next_def)
  moreover from assms(1) have "set_active h c None = h"
    using set_active_same [of h c] by simp
  ultimately show ?thesis
    using assms(1) by (simp add: pull_active_def active_def)
qed

lemma pull_active_Cons:
  assumes "active h c = None" "pending h c = p # ps"
  shows "\<exists>a h1. pull_active h c = Inr (a, h1) \<and> pulled h c p ps a h1"
proof -
  let ?o = "outer_objs h (c_source (chain_objs h c))"
  from assms(2) have "drop (a_index ?o) (a_source ?o) = p # ps"
    by (simp add: pending_def source_of_def remaining_def)
  from drop_eq_ConsD [OF this] have lt: "a_index ?o < length (a_source ?o)"
    and p: "a_source ?o ! a_index ?o = p" and ps: "drop (Suc (a_index ?o)) (a_source ?o) = ps"
    by simp_all
  show ?thesis
    using assms lt p ps
    by (auto simp: pull_active_def active_def pending_def remaining_def outer_next_def
        set_active_def Let_def sub_clone_def new_sub_def pulled_def cloned_def source_of_def
        sub_rest_def)
qed

lemma pulled_wf:
  assumes wf: "wf_heap h" and c: "c < chain_count h" and pl: "pulled h c p ps a h1"
  shows "wf_heap h1"
proof -
  from pl have pend: "pending h c = p # ps"
    and cl: "cloned h c \<Longrightarrow> a = sub_count h \<and> sub_count h1 = Suc (sub_count h)"
    and ncl: "\<not> cloned h c \<Longrightarrow> a = p \<and> sub_count h1 = sub_count h"
    and n: "chain_count h1 = chain_count h" "outer_count h1 = outer_count h"
    and act: "\<And>d. active h1 d = (if d = c then Some a else active h d)"
    and same: "\<And>d. source_of h1 d = source_of h d" "\<And>d. cloned h1 d = cloned h d"
    and pend1: "\<And>d. pending h1 d = (if source_of h d = source_of h c then ps else pending h d)"
    by (simp_all add: pulled_def)
  have pend_c: "pending h1 c = ps"
    by (simp add: pend1)
  have pend_d: "pending h1 d = pending h d" if "d < chain_count h" "d \<noteq> c" for d
    using wf_sources [OF wf c that(1) that(2)] by (simp add: pend1)
  have sub: "set (pending h1 d) \<subseteq> set (pending h d)" if "d < chain_count h" for d
    using pend_c pend_d [OF that] pend by (cases "d = c") auto
  have le: "sub_count h \<le> sub_count h1"
    using cl ncl by (cases "cloned h c") auto
  have a_lt: "a < sub_count h1"
  proof (cases "cloned h c")
    case True
    then show ?thesis using cl by simp
  next
    case False
    then show ?thesis using ncl wf_pending [OF wf c, of p] pend by simp
  qed
  have a_pend: "a \<notin> set (pending h1 d)" if d: "d < chain_count h" for d
  proof (cases "cloned h c")
    case True
    then have "a = sub_count h" using cl by simp
    moreover have "r < sub_count h" if "r \<in> set (pending h1 d)" for r
      using wf_pending [OF wf d, of r] sub [OF d] that by auto
    ultimately show ?thesis by auto
  next
    case False
    then have a: "a = p" using ncl by simp
    show ?thesis
    proof (cases "d = c")
      case True
      then show ?thesis
        using wf_distinct [OF wf c False] pend pend_c a by simp
    next
      case neq: False
      from wf_disjoint [OF wf c d neq False] pend pend_d [OF d neq] a
      show ?thesis by auto
    qed
  qed
  have a_act: "active h d \<noteq> Some a" if d: "d < chain_count h" for d
  proof (cases "cloned h c")
    case True
    then show ?thesis using cl wf_active [OF wf d, of a] by auto
  next
    case False
    then show ?thesis using ncl wf_active_pending [OF wf d c, of a] pend by auto
  qed
  show ?thesis
  proof (rule wf_heapI)
    fix d assume "d < chain_count h1"
    then show "source_of h1 d < outer_count h1"
      using wf_source [OF wf, of d] by (simp add: n same)
  next
    fix d b assume "d < chain_count h1" "active h1 d = Some b"
    then show "b < sub_count h1"
      using wf_active [OF wf, of d b] a_lt le by (auto simp: n act split: if_splits)
  next
    fix d r assume "d < chain_count h1" "r \<in> set (pending h1 d)"
    then show "r < sub_count h1"
      using wf_pending [OF wf, of d r] sub [of d] le by (auto simp: n)
  next
    fix d assume d: "d < chain_count h1" "\<not> cloned h1 d"
    show "distinct (pending h1 d)"
    proof (cases "d = c")
      case True
      then show ?thesis
        using wf_distinct [OF wf c] d pend pend_c by (simp add: same)
    next
      case False
      then show ?thesis
        using wf_distinct [OF wf, of d] d pend_d [of d] by (simp add: n same)
    qed
  next
    fix d d' assume "d < chain_count h1" "d' < chain_count h1" "d' \<noteq> d"
    then show "source_of h1 d' \<noteq> source_of h1 d"
      using wf_sources [OF wf, of d d'] by (simp add: n same)
  next
    fix d d' b assume "d < chain_count h1" "d' < chain_count h1" "d' \<noteq> d" "active h1 d = Some b"
    then show "active h1 d' \<noteq> Some b"
      using wf_actives [OF wf, of d d' b] a_act [of d] a_act [of d']
      by (auto simp: n act split: if_splits)
  next
    fix d d' b assume d: "d < chain_count h1" "d' < chain_count h1" "active h1 d = Some b"
    show "b \<notin> set (pending h1 d')"
    proof (cases "d = c")
      case True
      then show ?thesis using d a_pend [of d'] by (simp add: n act)
    next
      case False
      then have "active h d = Some b" using d by (simp add: act)
      from wf_active_pending [OF wf _ _ this, of d'] d sub [of d']
      show ?thesis by (auto simp: n)
    qed
  next
    fix d d' assume d: "d < chain_count h1" "d' < chain_count h1" "d' \<noteq> d" "\<not> cloned h1 d"
    then have "set (pending h d) \<inter> set (pending h d') = {}"
      using wf_disjoint [OF wf, of d d'] by (simp add: n same)
    then show "set (pending h1 d) \<inter> set (pending h1 d') = {}"
      using sub [of d] sub [of d'] d by (auto simp: n)
  qed
qed

lemma pulled_fresh:
  assumes wf: "wf_heap h" and c: "c < chain_count h" and pl: "pulled h c p ps a h1"
    and d: "d < chain_count h"
  shows "a \<notin> set (pending h1 d)" "active h d \<noteq> Some a"
    "pending h1 d = (if d = c then ps else pending h d)"
proof -
  from pl have pend: "pending h c = p # ps"
    and cl: "cloned h c \<Longrightarrow> a = sub_count h \<and> sub_count h1 = Suc (sub_count h)"
    and ncl: "\<not> cloned h c \<Longrightarrow> a = p \<and> sub_count h1 = sub_count h"
    and pend1: "\<And>d. pending h1 d = (if source_of h d = source_of h c then ps else pending h d)"
    by (simp_all add: pulled_def)
  show p1: "pending h1 d = (if d = c then ps else pending h d)"
    using wf_sources [OF wf c d] by (simp add: pend1)
  then have sub: "set (pending h1 d) \<subseteq> set (pending h d)"
    using pend by (cases "d = c") auto
  show "a \<notin> set (pending h1 d)"
  proof (cases "cloned h c")
    case True
    then have "a = sub_count h" using cl by simp
    moreover have "r < sub_count h" if "r \<in> set (pending h1 d)" for r
      using wf_pending [OF wf d, of r] sub that by auto
    ultimately show ?thesis by auto
  next
    case False
    then have a: "a = p" using ncl by simp
    show ?thesis
    proof (cases "d = c")
      case True
      then show ?thesis
        using wf_distinct [OF wf c False] pend p1 a by simp
    next
      case neq: False
      from wf_disjoint [OF wf c d neq False] pend p1 neq a
      show ?thesis by auto
    qed
  qed
  show "active h d \<noteq> Some a"
  proof (cases "cloned h c")
    case True
    then show ?thesis using cl wf_active [OF wf d, of a] by auto
  next
    case False
    then show ?thesis using ncl wf_active_pending [OF wf d c, of a] pend by auto
  qed
qed

lemma map_except:
  "a \<notin> set rs \<Longrightarrow> (\<And>r. r \<noteq> a \<Longrightarrow> f r = g r) \<Longrightarrow> map f rs = map g rs"
  by (induction rs) auto

lemma pulled_view:
  assumes wf: "wf_heap h" and c: "c < chain_count h" and none: "active h c = None"
    and pl: "pulled h c p ps a h1"
  shows "view h c = (None, sub_rest h p # map (sub_rest h) ps)"
    and "view h1 c = (Some (sub_rest h p), map (sub_rest h) ps)"
    and "\<And>d. d < chain_count h \<Longrightarrow> d \<noteq> c \<Longrightarrow> view h1 d = view h d"
proof -
  from pl have pend: "pending h c = p # ps"
    and rest_a: "sub_rest h1 a = sub_rest h p"
    and rest: "\<And>r. r \<noteq> a \<Longrightarrow> sub_rest h1 r = sub_rest h r"
    and act: "\<And>d. active h1 d = (if d = c then Some a else active h d)"
    by (simp_all add: pulled_def)
  show "view h c = (None, sub_rest h p # map (sub_rest h) ps)"
    by (simp add: view_def none pend)
  have "a \<notin> set ps"
    using pulled_fresh(1,3) [OF wf c pl c] by simp
  then have "map (sub_rest h1) ps = map (sub_rest h) ps"
    using rest by (rule map_except)
  then show "view h1 c = (Some (sub_rest h p), map (sub_rest h) ps)"
    using pulled_fresh(3) [OF wf c pl c] by (simp add: view_def act rest_a)
  fix d assume d: "d < chain_count h" "d \<noteq> c"
  have "a \<notin> set (pending h d)"
    using pulled_fresh(1,3) [OF wf c pl d(1)] d(2) by simp
  then have "map (sub_rest h1) (pending h d) = map (sub_rest h) (pending h d)"
    using rest by (rule map_except)
  moreover have "map_option (sub_rest h1) (active h d) = map_option (sub_rest h) (active h d)"
    using pulled_fresh(2) [OF wf c pl d(1)] rest by (cases "active h d") auto
  ultimately show "view h1 d = view h d"
    using pulled_fresh(3) [OF wf c pl d(1)] d(2) by (simp add: view_def act)
qed

lemma pull_active_Inl:
  assumes "pull_active h c = Inl h1"
  shows "h1 = h \<and> active h c = None \<and> pending h c = []"
proof (cases "active h c")
  case None
  show ?thesis
  proof (cases "pending h c")
    case Nil
    with None assms pull_active_Nil [OF None Nil] show ?thesis by simp
  next
    case (Cons p ps)
    with pull_active_Cons [OF None Cons] assms show ?thesis by auto
  qed
next
  case (Some a)
  with pull_active_Some [OF Some] assms show ?thesis by simp
qed

lemma pull_active_sim:
  assumes wf: "wf_heap h" and c: "c < chain_count h" and pa: "pull_active h c = Inr (a, h1)"
  shows "wf_heap h1 \<and> chain_count h1 = chain_count h \<and> active h1 c = Some a
    \<and> pnext (view h c) = pnext (view h1 c)
    \<and> (\<forall>d < chain_count h. d \<noteq> c \<longrightarrow> view h1 d = view h d)"
proof (cases "active h c")
  case (Some a0)
  with pull_active_Some [OF Some] pa wf show ?thesis by simp
next
  case None
  show ?thesis
  proof (cases "pending h c")
    case Nil
    with pull_active_Nil [OF None Nil] pa show ?thesis by simp
  next
    case (Cons p ps)
    from pull_active_Cons [OF None Cons] pa have pl: "pulled h c p ps a h1"
      by auto
    have "pnext (view h c) = pnext (view h1 c)"
      using pulled_view(1,2) [OF wf c None pl] by simp
    moreover have "chain_count h1 = chain_count h" "active h1 c = Some a"
      using pl by (simp_all add: pulled_def)
    ultimately show ?thesis
      using pulled_wf [OF wf c pl] pulled_view(3) [OF wf c None pl] by simp
  qed
qed

subsection \<open>A call of next on the abstraction\<close>

lemma sub_next_view:
  assumes wf: "wf_heap h1" and c: "c < chain_count h1" and act: "active h1 c = Some a"
    and sn: "sub_next h1 a = (v, h2)"
  shows "snd (view h2 c) = snd (view h1 c)"
    and "\<And>d. d < chain_count h1 \<Longrightarrow> d \<noteq> c \<Longrightarrow> view h2 d = view h1 d"
    and "v \<noteq> Undefined \<Longrightarrow> pnext (view h1 c) = (v, view h2 c)"
    and "v = Undefined \<Longrightarrow> pnext (view h1 c) = pnext (None, snd (view h1 c))"
proof -
  have h2: "h2 = snd (sub_next h1 a)"
    using sn by simp
  from sub_next_rest [OF sn]
  have rest: "\<And>r. r \<noteq> a \<Longrightarrow> sub_rest h2 r = sub_rest h1 r"
    by auto
  have pend: "map (sub_rest h2) (pending h1 d) = map (sub_rest h1) (pending h1 d)"
    if "d < chain_count h1" for d
    using wf_active_pending [OF wf c that act] rest by (rule map_except)
  show s: "snd (view h2 c) = snd (view h1 c)"
    using pend [OF c] by (simp add: view_def h2)
  show "view h2 d = view h1 d" if d: "d < chain_count h1" "d \<noteq> c" for d
  proof -
    have "active h1 d \<noteq> Some a"
      using wf_actives [OF wf c d(1) d(2) act] .
    then have "map_option (sub_rest h2) (active h1 d) = map_option (sub_rest h1) (active h1 d)"
      using rest by (cases "active h1 d") auto
    then show ?thesis
      using pend [OF d(1)] by (simp add: view_def h2)
  qed
  have v1: "view h1 c = (Some (sub_rest h1 a), snd (view h1 c))"
    by (simp add: view_def act)
  have v2: "view h2 c = (Some (sub_rest h2 a), snd (view h1 c))"
    using s by (simp add: view_def act h2)
  show "pnext (view h1 c) = (v, view h2 c)" if "v \<noteq> Undefined"
    using sub_next_rest [OF sn] that by (subst v1, subst v2) auto
  show "pnext (view h1 c) = pnext (None, snd (view h1 c))" if "v = Undefined"
    using sub_next_rest [OF sn] that by (subst v1) auto
qed

lemma clear_view:
  "view (set_active h c None) c = (None, snd (view h c))"
  "d \<noteq> c \<Longrightarrow> view (set_active h c None) d = view h d"
  by (simp_all add: view_def)

theorem next_sim:
  "wf_heap h \<Longrightarrow> c < chain_count h \<Longrightarrow> ChainIterator_next h c = (v, h') \<Longrightarrow>
     pnext (view h c) = (v, view h' c) \<and> wf_heap h' \<and> chain_count h' = chain_count h
     \<and> (\<forall>d < chain_count h. d \<noteq> c \<longrightarrow> view h' d = view h d)"
proof (induction h c arbitrary: v h' rule: ChainIterator_next.induct)
  case (1 h this)
  note wf = \<open>wf_heap h\<close> and c = \<open>this < chain_count h\<close>
  note nx = "1.prems"(3) [unfolded ChainIterator_next.simps [of h this]]
  show ?case
  proof (cases "pull_active h this")
    case (Inl h1)
    from pull_active_Inl [OF Inl] have "h1 = h" "view h this = (None, [])"
      by (simp_all add: view_def)
    with Inl nx wf show ?thesis by simp
  next
    case (Inr r)
    obtain a h1 where r: "r = (a, h1)" by (cases r)
    from pull_active_sim [OF wf c Inr [unfolded r]]
    have wf1: "wf_heap h1" and n1: "chain_count h1 = chain_count h" and act1: "active h1 this = Some a"
      and p1: "pnext (view h this) = pnext (view h1 this)"
      and o1: "\<And>d. d < chain_count h \<Longrightarrow> d \<noteq> this \<Longrightarrow> view h1 d = view h d"
      by auto
    obtain w h2 where sn: "sub_next h1 a = (w, h2)" by (cases "sub_next h1 a")
    have c1: "this < chain_count h1" using c n1 by simp
    have wf2: "wf_heap h2" and n2: "chain_count h2 = chain_count h"
      using sub_next_wf [OF wf1, of a] sn n1 sub_next_frame(3) [of h1 a] by simp_all
    note sv = sub_next_view [OF wf1 c1 act1 sn]
    show ?thesis
    proof (cases "w \<noteq> Undefined")
      case True
      with nx Inr r sn have "v = w" "h' = h2" by simp_all
      with sv(3) [OF True] sv(2) p1 o1 wf2 n2 n1 show ?thesis by simp
    next
      case False
      let ?h3 = "set_active h2 this None"
      from nx Inr r sn False have nx3: "ChainIterator_next ?h3 this = (v, h')"
        by simp
      have "pnext (view ?h3 this) = (v, view h' this) \<and> wf_heap h' \<and> chain_count h' = chain_count ?h3
        \<and> (\<forall>d < chain_count ?h3. d \<noteq> this \<longrightarrow> view h' d = view ?h3 d)"
        using "1.IH" [OF Inr r [symmetric] refl sn [symmetric] False set_active_None_wf [OF wf2] _ nx3]
          c n2 by simp
      moreover have "pnext (view h this) = pnext (view ?h3 this)"
        using p1 sv(4) sv(1) False by (simp add: clear_view)
      ultimately show ?thesis
        using sv(2) o1 n1 n2 by (simp add: clear_view)
    qed
  qed
qed

subsection \<open>The effect of chain and clone\<close>

lemma map_iter_effect:
  "map_iter h xss = (rs, h1) \<Longrightarrow>
     rs = [sub_count h ..< sub_count h + length xss] \<and> sub_count h1 = sub_count h + length xss
     \<and> outer_objs h1 = outer_objs h \<and> chain_objs h1 = chain_objs h
     \<and> outer_count h1 = outer_count h \<and> chain_count h1 = chain_count h
     \<and> (\<forall>r < sub_count h. sub_objs h1 r = sub_objs h r)
     \<and> map (sub_rest h1) rs = xss"
proof (induction xss arbitrary: h rs h1)
  case Nil
  then show ?case by simp
next
  case (Cons xs xss)
  let ?h = "h\<lparr>sub_objs := (sub_objs h)(sub_count h := \<lparr>a_source = xs, a_index = 0\<rparr>), sub_count := Suc (sub_count h)\<rparr>"
  obtain rs' h2 where m: "map_iter ?h xss = (rs', h2)"
    by (cases "map_iter ?h xss")
  with Cons.prems have rs: "rs = sub_count h # rs'" and h1: "h1 = h2"
    by (simp_all add: iter_array_def new_sub_def)
  from Cons.IH [OF m] have ih: "rs' = [Suc (sub_count h) ..< Suc (sub_count h) + length xss]"
    "sub_count h2 = Suc (sub_count h) + length xss" "outer_objs h2 = outer_objs h" "chain_objs h2 = chain_objs h"
    "outer_count h2 = outer_count h" "chain_count h2 = chain_count h"
    "\<And>r. r < Suc (sub_count h) \<Longrightarrow> sub_objs h2 r = sub_objs ?h r"
    "map (sub_rest h2) rs' = xss"
    by (auto simp del: upt_Suc)
  have x: "sub_rest h2 (sub_count h) = xs"
    using ih(7) [of "sub_count h"] by (simp add: sub_rest_def remaining_def)
  have e: "rs = [sub_count h ..< sub_count h + length (xs # xss)]"
    using rs ih(1) by (simp add: upt_conv_Cons del: upt_Suc)
  have m: "map (sub_rest h1) rs = xs # xss"
    using rs h1 ih(8) x by simp
  have old: "\<forall>r < sub_count h. sub_objs h1 r = sub_objs h r"
    using ih(7) h1 by simp
  have "sub_count h1 = sub_count h + length (xs # xss)"
    using ih(2) h1 by simp
  with e m old ih(3-6) h1 show ?case
    by blast
qed

lemma sub_rest_cong: "sub_objs h' = sub_objs h \<Longrightarrow> sub_rest h' = sub_rest h"
  by (simp add: fun_eq_iff sub_rest_def)

lemma chain_it_created:
  assumes "chain_it h xss = (c, h')"
  shows "created h xss c h'"
proof -
  obtain rs h1 where m: "map_iter h xss = (rs, h1)"
    by (cases "map_iter h xss")
  from assms m have h': "h' = snd (new_ChainIterator (snd (iter_iterators h1 rs)) (outer_count h1))"
    and c: "c = chain_count h1"
    by (auto simp: chain_it_def iter_iterators_def new_outer_def new_ChainIterator_def)
  have "sub_objs h' = sub_objs h1"
    by (simp add: h' iter_iterators_def new_outer_def new_ChainIterator_def)
  then have sr: "sub_rest h' = sub_rest h1"
    by (rule sub_rest_cong)
  from map_iter_effect [OF m] have "\<forall>r < sub_count h. sub_rest h1 r = sub_rest h r"
    by (simp add: sub_rest_def)
  with map_iter_effect [OF m] show ?thesis
    unfolding created_def sr
    by (auto simp: h' c iter_iterators_def new_outer_def new_ChainIterator_def
        active_def cloned_def source_of_def pending_def remaining_def simp del: upt_Suc)
qed

lemma clone_copied:
  assumes "c < chain_count h" "ChainIterator_clone h c = (c2, h')"
  shows "copied h c c2 h'"
proof (cases "c_active (chain_objs h c)")
  case None
  with assms show ?thesis
    by (auto simp: ChainIterator_clone_def outer_clone_def new_outer_def new_ChainIterator_def
        set_active_def set_cloned_def Let_def copied_def active_def cloned_def source_of_def
        pending_def remaining_def sub_rest_def split: if_splits)
next
  case (Some a)
  with assms show ?thesis
    by (auto simp: ChainIterator_clone_def outer_clone_def new_outer_def new_ChainIterator_def
        sub_clone_def new_sub_def
        set_active_def set_cloned_def Let_def copied_def active_def cloned_def source_of_def
        pending_def remaining_def sub_rest_def split: if_splits)
qed

lemma created_old:
  assumes wf: "wf_heap h" and cr: "created h xss c h'" and d: "d < chain_count h"
  shows "d \<noteq> c" "active h' d = active h d" "cloned h' d = cloned h d"
    "source_of h' d = source_of h d" "pending h' d = pending h d"
proof -
  from cr d show dc: "d \<noteq> c" by (simp add: created_def)
  from cr dc show "active h' d = active h d" "cloned h' d = cloned h d"
    and s: "source_of h' d = source_of h d"
    by (simp_all add: created_def)
  from wf_source [OF wf d] s cr show "pending h' d = pending h d"
    by (simp add: created_def)
qed

lemma created_new:
  assumes cr: "created h xss c h'"
  shows "c = chain_count h" "active h' c = None" "\<not> cloned h' c" "source_of h' c = outer_count h"
    "pending h' c = [sub_count h ..< sub_count h + length xss]"
  using cr by (simp_all add: created_def)

lemma created_wf:
  assumes wf: "wf_heap h" and cr: "created h xss c h'"
  shows "wf_heap h'"
proof -
  note old = created_old [OF wf cr] and new = created_new [OF cr]
  from cr have n: "chain_count h' = Suc (chain_count h)" "outer_count h' = Suc (outer_count h)"
    "sub_count h' = sub_count h + length xss"
    by (simp_all add: created_def)
  have cases: "d = c \<or> d < chain_count h" if "d < chain_count h'" for d
    using that n new(1) by auto
  have pend_lt: "r < sub_count h'" if "d < chain_count h'" "r \<in> set (pending h' d)" for d r
    using cases [OF that(1)] that(2) new(5) old(5) [of d] wf_pending [OF wf, of d r] n
    by auto
  have pend_old: "r < sub_count h" if "d < chain_count h" "r \<in> set (pending h' d)" for d r
    using that old(5) [of d] wf_pending [OF wf, of d r] by auto
  have pend_new: "sub_count h \<le> r" if "r \<in> set (pending h' c)" for r
    using that new(5) by auto
  show ?thesis
  proof (rule wf_heapI)
    fix d assume "d < chain_count h'"
    from cases [OF this] show "source_of h' d < outer_count h'"
      using new(4) old(4) [of d] wf_source [OF wf, of d] n by auto
  next
    fix d a assume "d < chain_count h'" "active h' d = Some a"
    with cases [of d] show "a < sub_count h'"
      using new(2) old(2) [of d] wf_active [OF wf, of d a] n by auto
  next
    fix d r assume "d < chain_count h'" "r \<in> set (pending h' d)"
    then show "r < sub_count h'" by (rule pend_lt)
  next
    fix d assume "d < chain_count h'" "\<not> cloned h' d"
    with cases [of d] show "distinct (pending h' d)"
      using new(5) old(3,5) [of d] wf_distinct [OF wf, of d] by auto
  next
    fix d d' assume "d < chain_count h'" "d' < chain_count h'" "d' \<noteq> d"
    with cases [of d] cases [of d'] show "source_of h' d' \<noteq> source_of h' d"
      using new(4) old(4) [of d] old(4) [of d'] wf_source [OF wf, of d] wf_source [OF wf, of d']
        wf_sources [OF wf, of d d'] by auto
  next
    fix d d' a assume "d < chain_count h'" "d' < chain_count h'" "d' \<noteq> d" "active h' d = Some a"
    with cases [of d] cases [of d'] show "active h' d' \<noteq> Some a"
      using new(2) old(2) [of d] old(2) [of d'] wf_actives [OF wf, of d d' a] by auto
  next
    fix d d' a assume a: "d < chain_count h'" "d' < chain_count h'" "active h' d = Some a"
    with cases [of d] new(2) have d: "d < chain_count h" by auto
    with a old(2) [of d] have act: "active h d = Some a" by simp
    from cases [OF a(2)] show "a \<notin> set (pending h' d')"
    proof
      assume "d' = c"
      then show ?thesis using pend_new [of a] wf_active [OF wf d act] by auto
    next
      assume "d' < chain_count h"
      then show ?thesis using old(5) [of d'] wf_active_pending [OF wf d _ act, of d'] by simp
    qed
  next
    fix d d' assume a: "d < chain_count h'" "d' < chain_count h'" "d' \<noteq> d" "\<not> cloned h' d"
    from cases [OF a(1)] cases [OF a(2)] a(3)
    consider "d = c" "d' < chain_count h" | "d' = c" "d < chain_count h"
      | "d < chain_count h" "d' < chain_count h"
      by auto
    then show "set (pending h' d) \<inter> set (pending h' d') = {}"
    proof cases
      case 1
      then show ?thesis using pend_new pend_old [of d'] by fastforce
    next
      case 2
      then show ?thesis using pend_new pend_old [of d] by fastforce
    next
      case 3
      then show ?thesis
        using a old(3,5) [of d] old(5) [of d'] wf_disjoint [OF wf, of d d'] by simp
    qed
  qed
qed

lemma created_view:
  assumes wf: "wf_heap h" and cr: "created h xss c h'"
  shows "view h' c = (None, xss)"
    and "\<And>d. d < chain_count h \<Longrightarrow> view h' d = view h d"
proof -
  from cr show "view h' c = (None, xss)"
    by (simp add: view_def created_def)
  fix d assume d: "d < chain_count h"
  note old = created_old [OF wf cr d]
  from cr have rest: "\<And>r. r < sub_count h \<Longrightarrow> sub_rest h' r = sub_rest h r"
    by (simp add: created_def)
  have "map (sub_rest h') (pending h d) = map (sub_rest h) (pending h d)"
    using wf_pending [OF wf d] rest by (auto intro: map_cong)
  moreover have "map_option (sub_rest h') (active h d) = map_option (sub_rest h) (active h d)"
    using wf_active [OF wf d] rest by (cases "active h d") auto
  ultimately show "view h' d = view h d"
    using old by (simp add: view_def)
qed

lemma copied_old:
  assumes wf: "wf_heap h" and cp: "copied h c c2 h'" and d: "d < chain_count h"
  shows "d \<noteq> c2" "active h' d = active h d" "cloned h' d = (d = c \<or> cloned h d)"
    "source_of h' d = source_of h d" "pending h' d = pending h d"
proof -
  from cp d show dc: "d \<noteq> c2" by (simp add: copied_def)
  from cp dc show "active h' d = active h d" "cloned h' d = (d = c \<or> cloned h d)"
    and s: "source_of h' d = source_of h d"
    by (simp_all add: copied_def)
  from wf_source [OF wf d] s cp show "pending h' d = pending h d"
    by (simp add: copied_def)
qed

lemma copied_new:
  assumes cp: "copied h c c2 h'"
  shows "c2 = chain_count h" "active h' c2 = map_option (\<lambda>_. sub_count h) (active h c)"
    "cloned h' c2" "source_of h' c2 = outer_count h" "pending h' c2 = pending h c"
  using cp by (simp_all add: copied_def)

lemma copied_wf:
  assumes wf: "wf_heap h" and c: "c < chain_count h" and cp: "copied h c c2 h'"
  shows "wf_heap h'"
proof -
  note old = copied_old [OF wf cp] and new = copied_new [OF cp]
  from cp have n: "chain_count h' = Suc (chain_count h)" "outer_count h' = Suc (outer_count h)"
    "sub_count h' = (if active h c = None then sub_count h else Suc (sub_count h))"
    by (simp_all add: copied_def)
  have le: "sub_count h \<le> sub_count h'"
    using n by simp
  have cases: "d = c2 \<or> d < chain_count h" if "d < chain_count h'" for d
    using that n new(1) by auto
  have new_act: "a = sub_count h \<and> a < sub_count h'" if "active h' c2 = Some a" for a
    using that new(2) n by (cases "active h c") auto
  have pend_lt: "r < sub_count h" if "d < chain_count h'" "r \<in> set (pending h' d)" for d r
    using cases [OF that(1)] that(2) new(5) old(5) [of d] wf_pending [OF wf, of d r]
      wf_pending [OF wf c, of r] by auto
  show ?thesis
  proof (rule wf_heapI)
    fix d assume "d < chain_count h'"
    from cases [OF this] show "source_of h' d < outer_count h'"
      using new(4) old(4) [of d] wf_source [OF wf, of d] n by auto
  next
    fix d a assume "d < chain_count h'" "active h' d = Some a"
    with cases [of d] show "a < sub_count h'"
      using new_act [of a] old(2) [of d] wf_active [OF wf, of d a] le by auto
  next
    fix d r assume "d < chain_count h'" "r \<in> set (pending h' d)"
    then show "r < sub_count h'" using pend_lt [of d r] le by simp
  next
    fix d assume "d < chain_count h'" "\<not> cloned h' d"
    with cases [of d] show "distinct (pending h' d)"
      using new(3) old(3,5) [of d] wf_distinct [OF wf, of d] by auto
  next
    fix d d' assume "d < chain_count h'" "d' < chain_count h'" "d' \<noteq> d"
    with cases [of d] cases [of d'] show "source_of h' d' \<noteq> source_of h' d"
      using new(4) old(4) [of d] old(4) [of d'] wf_source [OF wf, of d] wf_source [OF wf, of d']
        wf_sources [OF wf, of d d'] by auto
  next
    fix d d' a assume a: "d < chain_count h'" "d' < chain_count h'" "d' \<noteq> d" "active h' d = Some a"
    from cases [OF a(1)] cases [OF a(2)] a(3)
    consider "d = c2" "d' < chain_count h" | "d' = c2" "d < chain_count h"
      | "d < chain_count h" "d' < chain_count h"
      by auto
    then show "active h' d' \<noteq> Some a"
    proof cases
      case 1
      then show ?thesis
        using a(4) new_act [of a] old(2) [of d'] wf_active [OF wf, of d' a] by auto
    next
      case 2
      then show ?thesis
        using a(4) new_act [of a] old(2) [of d] wf_active [OF wf, of d a] by auto
    next
      case 3
      then show ?thesis
        using a old(2) [of d] old(2) [of d'] wf_actives [OF wf, of d d' a] by simp
    qed
  next
    fix d d' a assume a: "d < chain_count h'" "d' < chain_count h'" "active h' d = Some a"
    from cases [OF a(1)] show "a \<notin> set (pending h' d')"
    proof
      assume "d = c2"
      then show ?thesis using a(3) new_act [of a] pend_lt [OF a(2), of a] by auto
    next
      assume d: "d < chain_count h"
      with a old(2) [of d] have act: "active h d = Some a" by simp
      from cases [OF a(2)] show ?thesis
        using new(5) old(5) [of d'] wf_active_pending [OF wf d _ act, of d']
          wf_active_pending [OF wf d c act] by auto
    qed
  next
    fix d d' assume a: "d < chain_count h'" "d' < chain_count h'" "d' \<noteq> d" "\<not> cloned h' d"
    with cases [of d] new(3) have d: "d < chain_count h" by auto
    with a(4) old(3) [of d] have nc: "d \<noteq> c" "\<not> cloned h d" by auto
    from cases [OF a(2)] show "set (pending h' d) \<inter> set (pending h' d') = {}"
    proof
      assume "d' = c2"
      then show ?thesis
        using new(5) old(5) [OF d] wf_disjoint [OF wf d c _ nc(2)] nc(1) by auto
    next
      assume "d' < chain_count h"
      then show ?thesis
        using a(3) old(5) [OF d] old(5) [of d'] wf_disjoint [OF wf d _ _ nc(2), of d'] by auto
    qed
  qed
qed

lemma copied_view:
  assumes wf: "wf_heap h" and c: "c < chain_count h" and cp: "copied h c c2 h'"
  shows "view h' c2 = view h c"
    and "\<And>d. d < chain_count h \<Longrightarrow> view h' d = view h d"
proof -
  from cp have rest: "\<And>r. r < sub_count h \<Longrightarrow> sub_rest h' r = sub_rest h r"
    and fresh: "\<And>a. active h c = Some a \<Longrightarrow> sub_rest h' (sub_count h) = sub_rest h a"
    by (simp_all add: copied_def)
  have pend: "map (sub_rest h') (pending h d) = map (sub_rest h) (pending h d)"
    if "d < chain_count h" for d
    using wf_pending [OF wf that] rest by (auto intro: map_cong)
  show "view h' c2 = view h c"
    using copied_new [OF cp] pend [OF c] fresh by (cases "active h c") (simp_all add: view_def)
  fix d assume d: "d < chain_count h"
  have "map_option (sub_rest h') (active h d) = map_option (sub_rest h) (active h d)"
    using wf_active [OF wf d] rest by (cases "active h d") auto
  then show "view h' d = view h d"
    using copied_old [OF wf cp d] pend [OF d] by (simp add: view_def)
qed

subsection \<open>Runs and the abstraction\<close>

lemma run_CallNext:
  "c < chain_count h \<Longrightarrow> snd (run (CallNext c # cs) h) = snd (run cs (snd (ChainIterator_next h c)))"
  "c < chain_count h \<Longrightarrow> fst (run (CallNext c # cs) h) =
     (c, fst (ChainIterator_next h c)) # fst (run cs (snd (ChainIterator_next h c)))"
  "\<not> c < chain_count h \<Longrightarrow> run (CallNext c # cs) h = run cs h"
  by (simp_all split: prod.splits)

declare run.simps(4) [simp del]

lemma nexts_sim:
  "wf_heap h \<Longrightarrow> c < chain_count h \<Longrightarrow> nexts n h c = (vs, h') \<Longrightarrow>
     pnexts n (view h c) = (vs, view h' c) \<and> wf_heap h' \<and> chain_count h' = chain_count h
     \<and> (\<forall>d < chain_count h. d \<noteq> c \<longrightarrow> view h' d = view h d)"
proof (induction n arbitrary: h vs h')
  case 0
  then show ?case by simp
next
  case (Suc n)
  obtain v h1 where nx: "ChainIterator_next h c = (v, h1)"
    by (cases "ChainIterator_next h c")
  obtain ws h2 where ns: "nexts n h1 c = (ws, h2)"
    by (cases "nexts n h1 c")
  from next_sim [OF Suc.prems(1,2) nx]
  have s1: "pnext (view h c) = (v, view h1 c)" "wf_heap h1" "chain_count h1 = chain_count h"
    "\<And>d. d < chain_count h \<Longrightarrow> d \<noteq> c \<Longrightarrow> view h1 d = view h d"
    by auto
  from Suc.IH [OF s1(2) _ ns] Suc.prems(2) s1(3)
  have s2: "pnexts n (view h1 c) = (ws, view h2 c)" "wf_heap h2" "chain_count h2 = chain_count h"
    "\<And>d. d < chain_count h \<Longrightarrow> d \<noteq> c \<Longrightarrow> view h2 d = view h1 d"
    by auto
  from Suc.prems(3) nx ns have "vs = v # ws" "h' = h2"
    by simp_all
  with s1 s2 show ?case by simp
qed

lemma run_wf:
  "wf_heap h \<Longrightarrow> wf_heap (snd (run cs h)) \<and> chain_count h \<le> chain_count (snd (run cs h))"
proof (induction cs arbitrary: h)
  case Nil
  then show ?case by simp
next
  case (Cons x cs)
  show ?case
  proof (cases x)
    case (NewChain objects)
    obtain c h1 where ch: "chain_it h objects = (c, h1)"
      by (cases "chain_it h objects")
    from chain_it_created [OF ch] have cr: "created h objects c h1" .
    from created_wf [OF Cons.prems cr] have "wf_heap h1" .
    from Cons.IH [OF this] cr NewChain ch show ?thesis
      by (simp add: created_def)
  next
    case (CallNext c)
    show ?thesis
    proof (cases "c < chain_count h")
      case True
      obtain v h1 where nx: "ChainIterator_next h c = (v, h1)"
        by (cases "ChainIterator_next h c")
      from next_sim [OF Cons.prems True nx] have "wf_heap h1" "chain_count h1 = chain_count h"
        by auto
      with Cons.IH [of h1] CallNext True nx show ?thesis
        by (simp add: run_CallNext)
    next
      case False
      with Cons.IH [OF Cons.prems] CallNext show ?thesis by (simp add: run_CallNext)
    qed
  next
    case (CallClone c)
    show ?thesis
    proof (cases "c < chain_count h")
      case True
      obtain c2 h1 where cl: "ChainIterator_clone h c = (c2, h1)"
        by (cases "ChainIterator_clone h c")
      from clone_copied [OF True cl] have cp: "copied h c c2 h1" .
      from copied_wf [OF Cons.prems True cp] have "wf_heap h1" .
      from Cons.IH [OF this] cp CallClone True cl show ?thesis
        by (simp add: copied_def)
    next
      case False
      with Cons.IH [OF Cons.prems] CallClone show ?thesis by simp
    qed
  qed
qed

lemma run_sim:
  "wf_heap h \<Longrightarrow> c < chain_count h \<Longrightarrow>
     pnexts (calls c cs) (view h c) = (returned c (fst (run cs h)), view (snd (run cs h)) c)"
proof (induction cs arbitrary: h)
  case Nil
  then show ?case by (simp add: calls_def returned_def)
next
  case (Cons x cs)
  show ?case
  proof (cases x)
    case (NewChain objects)
    obtain c' h1 where ch: "chain_it h objects = (c', h1)"
      by (cases "chain_it h objects")
    from chain_it_created [OF ch] have cr: "created h objects c' h1" .
    have "wf_heap h1" "c < chain_count h1" "view h1 c = view h c"
      using created_wf [OF Cons.prems(1) cr] created_view(2) [OF Cons.prems(1) cr Cons.prems(2)]
        cr Cons.prems(2) by (simp_all add: created_def)
    with Cons.IH [of h1] NewChain ch show ?thesis
      by (simp add: calls_def)
  next
    case (CallClone d)
    show ?thesis
    proof (cases "d < chain_count h")
      case True
      obtain c2 h1 where cl: "ChainIterator_clone h d = (c2, h1)"
        by (cases "ChainIterator_clone h d")
      from clone_copied [OF True cl] have cp: "copied h d c2 h1" .
      have "wf_heap h1" "c < chain_count h1" "view h1 c = view h c"
        using copied_wf [OF Cons.prems(1) True cp]
          copied_view(2) [OF Cons.prems(1) True cp Cons.prems(2)]
          cp Cons.prems(2) by (simp_all add: copied_def)
      with Cons.IH [of h1] CallClone True cl show ?thesis
        by (simp add: calls_def)
    next
      case False
      with Cons.IH [OF Cons.prems] CallClone show ?thesis by (simp add: calls_def)
    qed
  next
    case (CallNext d)
    show ?thesis
    proof (cases "d < chain_count h")
      case True
      obtain v h1 where nx: "ChainIterator_next h d = (v, h1)"
        by (cases "ChainIterator_next h d")
      from next_sim [OF Cons.prems(1) True nx]
      have s: "pnext (view h d) = (v, view h1 d)" "wf_heap h1" "chain_count h1 = chain_count h"
        "\<And>e. e < chain_count h \<Longrightarrow> e \<noteq> d \<Longrightarrow> view h1 e = view h e"
        by auto
      have c1: "c < chain_count h1" using s(3) Cons.prems(2) by simp
      show ?thesis
      proof (cases "d = c")
        case True
        with Cons.IH [OF s(2) c1] s(1) CallNext \<open>d < chain_count h\<close> nx show ?thesis
          by (simp add: calls_def returned_def run_CallNext split: prod.splits)
      next
        case False
        with Cons.IH [OF s(2) c1] s(4) [OF Cons.prems(2)] CallNext \<open>d < chain_count h\<close> nx
        show ?thesis
          by (simp add: calls_def returned_def run_CallNext split: prod.splits)
      qed
    next
      case False
      with Cons.prems(2) have "d \<noteq> c" by auto
      with Cons.IH [OF Cons.prems] CallNext False show ?thesis
        by (simp add: calls_def run_CallNext)
    qed
  qed
qed

subsection \<open>Termination of draining\<close>

lemma pull_active_progress:
  assumes "pull_active h c = Inr (a, h1)"
  shows "active h1 c = Some a
    \<and> (case active h c of
          Some a' \<Rightarrow> h1 = h
        | None \<Rightarrow> length (pending h1 c) < length (pending h c))"
proof (cases "active h c")
  case (Some a')
  with pull_active_Some [OF Some] assms show ?thesis by simp
next
  case None
  show ?thesis
  proof (cases "pending h c")
    case Nil
    with pull_active_Nil [OF None Nil] assms show ?thesis by simp
  next
    case (Cons p ps)
    from pull_active_Cons [OF None Cons] assms have "pulled h c p ps a h1" by auto
    then show ?thesis using None by (simp add: pulled_def)
  qed
qed

lemma next_progress:
  "ChainIterator_next h c = (v, h') \<Longrightarrow>
     length (pending h' c) \<le> length (pending h c)
     \<and> (v \<noteq> Undefined \<longrightarrow>
           length (pending h' c) < length (pending h c)
         \<or> active_left h' c < active_left h c)"
proof (induction h c arbitrary: v h' rule: ChainIterator_next.induct)
  case (1 h this)
  note nx = "1.prems" [unfolded ChainIterator_next.simps [of h this]]
  show ?case
  proof (cases "pull_active h this")
    case (Inl h1)
    with nx pull_active_Inl [OF Inl] show ?thesis by simp
  next
    case (Inr r)
    obtain a h1 where r: "r = (a, h1)" by (cases r)
    note pp = pull_active_progress [OF Inr [unfolded r]]
    obtain w h2 where sn: "sub_next h1 a = (w, h2)" by (cases "sub_next h1 a")
    then have h2: "h2 = snd (sub_next h1 a)" by simp
    have le1: "length (pending h1 this) \<le> length (pending h this)"
      using pp by (cases "active h this") auto
    show ?thesis
    proof (cases "w \<noteq> Undefined")
      case True
      with nx Inr r sn have res: "v = w" "h' = h2" by simp_all
      from sub_next_rest [OF sn] True have "sub_rest h1 a = w # sub_rest h2 a" by auto
      then have "active_left h2 this < active_left h1 this"
        using pp by (simp add: active_left_def h2)
      then show ?thesis
        using pp le1 res by (cases "active h this") (auto simp: h2)
    next
      case False
      let ?h3 = "set_active h2 this None"
      from nx Inr r sn False have nx3: "ChainIterator_next ?h3 this = (v, h')"
        by simp
      from "1.IH" [OF Inr r [symmetric] refl sn [symmetric] False nx3]
      have "length (pending h' this) \<le> length (pending h1 this)"
        and "v \<noteq> Undefined \<longrightarrow> length (pending h' this) < length (pending h1 this)"
        by (auto simp: h2 active_left_def)
      with le1 show ?thesis by auto
    qed
  qed
qed

termination toArray
proof (relation "measures [\<lambda>(h, it). length (pending h it), \<lambda>(h, it). active_left h it]")
  fix h it x v h1
  assume "x = ChainIterator_next h it" "(v, h1) = x" "v \<noteq> Undefined"
  then have "ChainIterator_next h it = (v, h1)" by simp
  from next_progress [OF this] \<open>v \<noteq> Undefined\<close>
  show "((h1, it), (h, it)) \<in> measures [\<lambda>(h, it). length (pending h it), \<lambda>(h, it). active_left h it]"
    by auto
qed simp

declare toArray.simps [simp del]

termination next_depth
  by (relation "measure (\<lambda>(h, this). next_measure h this)")
     (auto intro: pull_active_measure [OF _ sym])

declare next_depth.simps [simp del]

subsection \<open>The values a chain returns\<close>

lemma wf_world: "wf_heap (world cs)"
  using run_wf [OF wf_empty, of cs] by (simp add: world_def)

lemma stack_view: "stack (view h c) = map (sub_rest h) (upcoming h c)"
  by (cases "active h c") (simp_all add: stack_def view_def upcoming_def)

lemma flat_step:
  "flat (None, xs # xss) = flat (Some xs, xss)"
  "flat (Some [], xss) = flat (None, xss)"
  by (simp_all add: flat_def)

lemma fst_pnexts_Suc:
  "fst (pnexts (Suc n) s) = fst (pnext s) # fst (pnexts n (snd (pnext s)))"
  by (simp split: prod.splits)

lemma pnext_clean_Nil:
  "flat s = [] \<Longrightarrow> pnext s = (Undefined, (None, []))"
proof (induction s rule: pnext.induct)
  case 1
  then show ?case by simp
next
  case (2 xs xss)
  from "2.prems" have "flat (Some xs, xss) = []" by (simp add: flat_def)
  from "2.IH" [OF this] show ?case by simp
next
  case (3 xss)
  from "3.prems" have "flat (None, xss) = []" by (simp add: flat_def)
  from "3.IH" [OF this] show ?case by simp
next
  case (4 x xs xss)
  then show ?case by (simp add: flat_def)
qed

lemma pnext_clean_Cons:
  "Undefined \<notin> set (flat s) \<Longrightarrow> flat s = x # ys \<Longrightarrow>
     fst (pnext s) = x \<and> flat (snd (pnext s)) = ys"
proof (induction s rule: pnext.induct)
  case 1
  then show ?case by (simp add: flat_def)
next
  case (2 xs xss)
  from "2.IH" [OF "2.prems" [unfolded flat_step]] show ?case by simp
next
  case (3 xss)
  from "3.IH" [OF "3.prems" [unfolded flat_step]] show ?case by simp
next
  case (4 x' xs xss)
  then show ?case by (auto simp: flat_def)
qed

lemma pnexts_done: "pnexts n (None, []) = (replicate n Undefined, (None, []))"
  by (induction n) simp_all

lemma pnexts_clean:
  "Undefined \<notin> set (flat s) \<Longrightarrow>
     fst (pnexts n s) = take n (flat s) @ replicate (n - length (flat s)) Undefined"
proof (induction n arbitrary: s)
  case 0
  then show ?case by simp
next
  case (Suc n)
  show ?case
  proof (cases "flat s")
    case Nil
    with pnext_clean_Nil [OF Nil] show ?thesis
      by (simp add: pnexts_done)
  next
    case (Cons x ys)
    with pnext_clean_Cons [OF Suc.prems Cons]
    have p: "fst (pnext s) = x" "flat (snd (pnext s)) = ys" by simp_all
    with Suc.prems Cons have "Undefined \<notin> set (flat (snd (pnext s)))" by simp
    from Suc.IH [OF this] p Cons show ?thesis
      by (simp add: fst_pnexts_Suc del: pnexts.simps)
  qed
qed

lemma pnext_exhausted: "fst (pnext s) = Undefined \<Longrightarrow> snd (pnext s) = (None, [])"
  by (induction s rule: pnext.induct) (auto split: if_splits)

lemma pnext_skip:
  "stack s = replicate k [] @ (Val x # xs) # rest \<Longrightarrow> pnext s = (Val x, (Some xs, rest))"
proof (induction s arbitrary: k rule: pnext.induct)
  case 1
  then show ?case by (simp add: stack_def)
next
  case (2 ys yss)
  from "2.prems" have "stack (Some ys, yss) = replicate k [] @ (Val x # xs) # rest"
    by (simp add: stack_def)
  from "2.IH" [OF this] show ?case by simp
next
  case (3 yss)
  show ?case
  proof (cases k)
    case 0
    with "3.prems" show ?thesis by (simp add: stack_def)
  next
    case (Suc j)
    with "3.prems" have "stack (None, yss) = replicate j [] @ (Val x # xs) # rest"
      by (simp add: stack_def)
    from "3.IH" [OF this] show ?thesis by simp
  qed
next
  case (4 y ys yss)
  show ?case
  proof (cases k)
    case 0
    with "4.prems" show ?thesis by (simp add: stack_def)
  next
    case (Suc j)
    with "4.prems" show ?thesis by (simp add: stack_def)
  qed
qed

lemma toArray_nexts:
  "toArray h c = (vs, h') \<Longrightarrow>
     nexts (Suc (length vs)) h c = (vs @ [Undefined], h') \<and> Undefined \<notin> set vs"
proof (induction h c arbitrary: vs h' rule: toArray.induct)
  case (1 h it)
  obtain v h1 where nx: "ChainIterator_next h it = (v, h1)"
    by (cases "ChainIterator_next h it")
  note ta = "1.prems" [unfolded toArray.simps [of h it]]
  show ?case
  proof (cases "v \<noteq> Undefined")
    case True
    obtain ws h2 where t: "toArray h1 it = (ws, h2)" by (cases "toArray h1 it")
    from "1.IH" [OF nx [symmetric] refl True t]
    have "nexts (Suc (length ws)) h1 it = (ws @ [Undefined], h2)" "Undefined \<notin> set ws"
      by simp_all
    moreover from ta nx t True have "vs = v # ws" "h' = h2" by simp_all
    ultimately show ?thesis using nx True by simp
  next
    case False
    with ta nx show ?thesis by simp
  qed
qed

lemma drained_eq:
  "Undefined \<notin> set vs \<Longrightarrow> Undefined \<notin> set ys \<Longrightarrow>
     vs @ [Undefined] = take (Suc (length vs)) ys @ replicate (Suc (length vs) - length ys) Undefined \<Longrightarrow>
     vs = ys"
proof (induction vs arbitrary: ys)
  case Nil
  then show ?case by (cases ys) auto
next
  case (Cons v vs)
  then show ?case by (cases ys) auto
qed

lemma nexts_fst:
  assumes "wf_heap h" "c < chain_count h"
  shows "fst (nexts n h c) = fst (pnexts n (view h c))"
  using nexts_sim [OF assms, of n "fst (nexts n h c)" "snd (nexts n h c)"] by simp

lemma chain_nexts:
  assumes clean: "\<forall>xs \<in> set objects. Undefined \<notin> set xs"
    and ch: "chain_it (world cs) objects = (c, h)"
  shows "fst (nexts n h c) =
     take n (concat objects) @ replicate (n - length (concat objects)) Undefined"
proof -
  from chain_it_created [OF ch] have cr: "created (world cs) objects c h" .
  have wf: "wf_heap h" and c: "c < chain_count h" and v: "view h c = (None, objects)"
    using created_wf [OF wf_world cr] created_view(1) [OF wf_world cr] cr
    by (simp_all add: created_def)
  have f: "flat (None, objects) = concat objects"
    by (simp add: flat_def)
  with clean have "Undefined \<notin> set (flat (None, objects))" by auto
  from pnexts_clean [OF this, of n] f show ?thesis
    by (simp add: nexts_fst [OF wf c] v)
qed

subsection \<open>The depth of the recursion\<close>

lemma signals_exhaustion_rest: "signals_exhaustion h r = exhausted (sub_rest h r)"
proof -
  obtain v h' where sn: "sub_next h r = (v, h')" by (cases "sub_next h r")
  from sub_next_rest [OF sn] sn show ?thesis
    by (auto simp: signals_exhaustion_def exhausted_def)
qed

lemma pull_active_stack:
  assumes wf: "wf_heap h" and c: "c < chain_count h" and pa: "pull_active h c = Inr (a, h1)"
  shows "stack (view h1 c) = stack (view h c)"
proof (cases "active h c")
  case (Some a0)
  with pull_active_Some [OF Some] pa show ?thesis by simp
next
  case None
  show ?thesis
  proof (cases "pending h c")
    case Nil
    with pull_active_Nil [OF None Nil] pa show ?thesis by simp
  next
    case (Cons p ps)
    from pull_active_Cons [OF None Cons] pa have pl: "pulled h c p ps a h1"
      by auto
    from pulled_view(1,2) [OF wf c None pl] show ?thesis
      by (simp add: stack_def)
  qed
qed

lemma next_depth_stack:
  "wf_heap h \<Longrightarrow> c < chain_count h \<Longrightarrow>
     next_depth h c = Suc (length (takeWhile exhausted (stack (view h c))))"
proof (induction h c rule: next_depth.induct)
  case (1 h this)
  note wf = \<open>wf_heap h\<close> and c = \<open>this < chain_count h\<close>
  note nd = next_depth.simps [of h this]
  show ?case
  proof (cases "pull_active h this")
    case (Inl h1)
    from pull_active_Inl [OF Inl] have "stack (view h this) = []"
      by (simp add: stack_def view_def)
    with Inl nd show ?thesis by simp
  next
    case (Inr r)
    obtain a h1 where r: "r = (a, h1)" by (cases r)
    from pull_active_sim [OF wf c Inr [unfolded r]]
    have wf1: "wf_heap h1" and n1: "chain_count h1 = chain_count h" and act1: "active h1 this = Some a"
      by auto
    note st = pull_active_stack [OF wf c Inr [unfolded r]]
    obtain w h2 where sn: "sub_next h1 a = (w, h2)" by (cases "sub_next h1 a")
    have c1: "this < chain_count h1" using c n1 by simp
    have wf2: "wf_heap h2" and n2: "chain_count h2 = chain_count h"
      using sub_next_wf [OF wf1, of a] sn n1 sub_next_frame(3) [of h1 a] by simp_all
    note sv = sub_next_view [OF wf1 c1 act1 sn]
    have "stack (view h1 this) = sub_rest h1 a # snd (view h1 this)"
      by (simp add: stack_def view_def act1)
    with st have st1: "stack (view h this) = sub_rest h1 a # snd (view h1 this)"
      by simp
    show ?thesis
    proof (cases "w \<noteq> Undefined")
      case True
      with sub_next_rest [OF sn] have "\<not> exhausted (sub_rest h1 a)"
        by (auto simp: exhausted_def)
      with nd Inr r sn True st1 show ?thesis by simp
    next
      case False
      let ?h3 = "set_active h2 this None"
      from False sub_next_rest [OF sn] have ex: "exhausted (sub_rest h1 a)"
        by (auto simp: exhausted_def)
      have "stack (view ?h3 this) = snd (view h1 this)"
        using sv(1) by (simp add: clear_view stack_def)
      with "1.IH" [OF Inr r [symmetric] refl sn [symmetric] False set_active_None_wf [OF wf2]]
        c n2
      have "next_depth ?h3 this = Suc (length (takeWhile exhausted (snd (view h1 this))))"
        by simp
      with nd Inr r sn False st1 ex show ?thesis by simp
    qed
  qed
qed

lemma next_depth_heap:
  assumes "wf_heap h" "c < chain_count h"
  shows "next_depth h c = Suc (length (takeWhile (signals_exhaustion h) (upcoming h c)))"
proof -
  have "signals_exhaustion h = exhausted \<circ> sub_rest h"
    by (simp add: fun_eq_iff signals_exhaustion_rest)
  then show ?thesis
    by (simp add: next_depth_stack [OF assms] stack_view takeWhile_map)
qed

subsection \<open>What a call of next can write\<close>

lemma pull_active_subs:
  assumes "pull_active h c = Inr (a, h1)"
  shows "sub_count h \<le> sub_count h1 \<and> (\<forall>r < sub_count h. sub_objs h1 r = sub_objs h r)
    \<and> cloned h1 = cloned h \<and> chain_count h1 = chain_count h
    \<and> (active h c = Some a \<or> active h c = None \<and> sub_count h \<le> a \<and> cloned h c
       \<or> active h c = None \<and> a \<in> set (pending h c) \<and> \<not> cloned h c)
    \<and> (set (pending h1 c) \<subseteq> set (pending h c))"
proof (cases "active h c")
  case (Some a0)
  with pull_active_Some [OF Some] assms show ?thesis by simp
next
  case None
  show ?thesis
  proof (cases "pending h c")
    case Nil
    with pull_active_Nil [OF None Nil] assms show ?thesis by simp
  next
    case (Cons p ps)
    from pull_active_Cons [OF None Cons] assms have pl: "pulled h c p ps a h1"
      by auto
    have "\<forall>r < sub_count h. sub_objs h1 r = sub_objs h r"
      using assms None
      by (auto simp: pull_active_def active_def outer_next_def set_active_def Let_def
          sub_clone_def new_sub_def split: if_splits prod.splits option.splits)
    moreover have "cloned h1 = cloned h"
      using pl by (simp add: pulled_def fun_eq_iff)
    ultimately show ?thesis
      using pl None by (auto simp: pulled_def split: if_splits)
  qed
qed

lemma sub_next_subs: "r \<noteq> a \<Longrightarrow> sub_objs (snd (sub_next h a)) r = sub_objs h r"
  by (simp add: sub_next_def Let_def)

lemma next_frame:
  "ChainIterator_next h c = (v, h') \<Longrightarrow>
     sub_count h \<le> sub_count h' \<and> cloned h' = cloned h \<and> chain_count h' = chain_count h
     \<and> (\<forall>r < sub_count h. sub_objs h' r \<noteq> sub_objs h r \<longrightarrow>
           active h c = Some r \<or> (\<not> cloned h c \<and> r \<in> set (pending h c)))
     \<and> (\<forall>a. active h' c = Some a \<longrightarrow>
           active h c = Some a \<or> (if cloned h c then sub_count h \<le> a else a \<in> set (pending h c)))"
proof (induction h c arbitrary: v h' rule: ChainIterator_next.induct)
  case (1 h this)
  note nx = "1.prems" [unfolded ChainIterator_next.simps [of h this]]
  show ?case
  proof (cases "pull_active h this")
    case (Inl h1)
    with nx pull_active_Inl [OF Inl] show ?thesis by auto
  next
    case (Inr r)
    obtain a h1 where r: "r = (a, h1)" by (cases r)
    from pull_active_subs [OF Inr [unfolded r]]
    have p: "sub_count h \<le> sub_count h1" "\<And>r. r < sub_count h \<Longrightarrow> sub_objs h1 r = sub_objs h r"
      "cloned h1 = cloned h" "chain_count h1 = chain_count h"
      "active h this = Some a \<or> active h this = None \<and> sub_count h \<le> a \<and> cloned h this
        \<or> active h this = None \<and> a \<in> set (pending h this) \<and> \<not> cloned h this"
      "set (pending h1 this) \<subseteq> set (pending h this)"
      by auto
    from pull_active_progress [OF Inr [unfolded r]] have act1: "active h1 this = Some a"
      by simp
    obtain w h2 where sn: "sub_next h1 a = (w, h2)" by (cases "sub_next h1 a")
    then have h2: "h2 = snd (sub_next h1 a)" by simp
    have same2: "sub_objs h2 r = sub_objs h r" if "r < sub_count h" "r \<noteq> a" for r
      using sub_next_subs [OF that(2), of h1] p(2) [OF that(1)] by (simp add: h2)
    have ch2: "r = a" if "r < sub_count h" "sub_objs h2 r \<noteq> sub_objs h r" for r
      using same2 [OF that(1)] that(2) by (cases "r = a") simp_all
    show ?thesis
    proof (cases "w \<noteq> Undefined")
      case True
      with nx Inr r sn have res: "v = w" "h' = h2" by simp_all
      have "active h2 this = Some a" using act1 by (simp add: h2)
      with p ch2 show ?thesis
        unfolding res by (auto simp: h2)
    next
      case False
      let ?h3 = "set_active h2 this None"
      from nx Inr r sn False have nx3: "ChainIterator_next ?h3 this = (v, h')"
        by simp
      from "1.IH" [OF Inr r [symmetric] refl sn [symmetric] False nx3]
      have ih: "sub_count h1 \<le> sub_count h'" "cloned h' = cloned h1" "chain_count h' = chain_count h1"
        "\<And>r. r < sub_count h1 \<Longrightarrow> sub_objs h' r \<noteq> sub_objs h2 r \<Longrightarrow>
           \<not> cloned h1 this \<and> r \<in> set (pending h1 this)"
        "\<And>b. active h' this = Some b \<Longrightarrow>
           (if cloned h1 this then sub_count h1 \<le> b else b \<in> set (pending h1 this))"
        by (auto simp: h2)
      have "active h this = Some r \<or> (\<not> cloned h this \<and> r \<in> set (pending h this))"
        if "r < sub_count h" "sub_objs h' r \<noteq> sub_objs h r" for r
      proof (cases "sub_objs h' r = sub_objs h2 r")
        case True
        with that ch2 [of r] p(5) show ?thesis by auto
      next
        case False
        with ih(4) [of r] that p show ?thesis by auto
      qed
      moreover have "active h this = Some b
          \<or> (if cloned h this then sub_count h \<le> b else b \<in> set (pending h this))"
        if "active h' this = Some b" for b
        using ih(5) [OF that] p by (auto split: if_splits)
      ultimately show ?thesis
        using ih(1,2,3) p(1,3,4) by auto
    qed
  qed
qed

subsection \<open>The flag and the objects of different chains\<close>

lemma run_cloned:
  "cloned h c \<Longrightarrow> c < chain_count h \<Longrightarrow> cloned (snd (run cs h)) c"
proof (induction cs arbitrary: h)
  case Nil
  then show ?case by simp
next
  case (Cons x cs)
  show ?case
  proof (cases x)
    case (NewChain objects)
    obtain c' h1 where ch: "chain_it h objects = (c', h1)"
      by (cases "chain_it h objects")
    from chain_it_created [OF ch] Cons.prems have "cloned h1 c" "c < chain_count h1"
      by (auto simp: created_def)
    from Cons.IH [OF this] NewChain ch show ?thesis by simp
  next
    case (CallNext d)
    show ?thesis
    proof (cases "d < chain_count h")
      case True
      obtain v h1 where nx: "ChainIterator_next h d = (v, h1)"
        by (cases "ChainIterator_next h d")
      from next_frame [OF nx] Cons.prems have "cloned h1 c" "c < chain_count h1"
        by auto
      from Cons.IH [OF this] CallNext True nx show ?thesis
        by (simp add: run_CallNext)
    next
      case False
      with Cons.IH [OF Cons.prems] CallNext show ?thesis by (simp add: run_CallNext)
    qed
  next
    case (CallClone d)
    show ?thesis
    proof (cases "d < chain_count h")
      case True
      obtain c2 h1 where cl: "ChainIterator_clone h d = (c2, h1)"
        by (cases "ChainIterator_clone h d")
      from clone_copied [OF True cl] Cons.prems have "cloned h1 c" "c < chain_count h1"
        by (auto simp: copied_def)
      from Cons.IH [OF this] CallClone True cl show ?thesis by simp
    next
      case False
      with Cons.IH [OF Cons.prems] CallClone show ?thesis by simp
    qed
  qed
qed

lemma next_other_footprint:
  assumes wf: "wf_heap h" and c: "c < chain_count h" and d: "d < chain_count h" and dc: "d \<noteq> c"
    and nx: "ChainIterator_next h c = (v, h')" and r: "r \<in> footprint h d"
  shows "sub_objs h' r = sub_objs h r"
proof (rule ccontr)
  assume ne: "sub_objs h' r \<noteq> sub_objs h r"
  from r have rd: "active h d = Some r \<or> r \<in> set (pending h d)"
    by (auto simp: footprint_def)
  then have lt: "r < sub_count h"
    using wf_active [OF wf d, of r] wf_pending [OF wf d, of r] by auto
  from next_frame [OF nx] lt ne
  have "active h c = Some r \<or> (\<not> cloned h c \<and> r \<in> set (pending h c))"
    by blast
  then show False
  proof
    assume a: "active h c = Some r"
    from rd wf_actives [OF wf c d dc a] wf_active_pending [OF wf c d a] show False
      by auto
  next
    assume b: "\<not> cloned h c \<and> r \<in> set (pending h c)"
    from rd show False
    proof
      assume "active h d = Some r"
      from wf_active_pending [OF wf d c this] b show False by simp
    next
      assume "r \<in> set (pending h d)"
      with wf_disjoint [OF wf c d dc] b show False by auto
    qed
  qed
qed

lemma pull_cloned:
  assumes cl: "cloned h c" and none: "active h c = None" and pend: "pending h c = p # ps"
    and p: "p < sub_count h"
  shows "\<exists>h1. pull_active h c = Inr (sub_count h, h1) \<and> active h1 c = Some (sub_count h)
    \<and> sub_objs h1 (sub_count h) = sub_objs h p \<and> sub_objs h1 p = sub_objs h p"
proof -
  let ?o = "outer_objs h (c_source (chain_objs h c))"
  from pend have "drop (a_index ?o) (a_source ?o) = p # ps"
    by (simp add: pending_def source_of_def remaining_def)
  from drop_eq_ConsD [OF this] have lt: "a_index ?o < length (a_source ?o)"
    and pp: "a_source ?o ! a_index ?o = p"
    by simp_all
  show ?thesis
    using none cl lt pp p
    by (auto simp: pull_active_def active_def cloned_def outer_next_def
        set_active_def Let_def sub_clone_def new_sub_def)
qed

lemma subset_fresh_trans:
  "A \<subseteq> B \<union> {n1 ..} \<Longrightarrow> B \<subseteq> C \<union> {n ..} \<Longrightarrow> n \<le> n1 \<Longrightarrow> A \<subseteq> C \<union> {(n::nat) ..}"
  by auto

lemma disjoint_fresh:
  assumes "T \<subseteq> E \<union> {n ..< n1}" "M \<subseteq> F \<union> {n1 ..}" "E \<inter> F = {}"
    "E \<subseteq> {..< (n::nat)}" "F \<subseteq> {..< n}" "n \<le> n1"
  shows "T \<inter> M = {}"
proof -
  have False if "r \<in> T" "r \<in> M" for r
  proof -
    from that(1) assms(1) have t: "r \<in> E \<or> (n \<le> r \<and> r < n1)" by auto
    from that(2) assms(2) have m: "r \<in> F \<or> n1 \<le> r" by auto
    from t show False
    proof
      assume e: "r \<in> E"
      with assms(4) have "r < n" by auto
      with m assms(3,6) e show False by auto
    next
      assume "n \<le> r \<and> r < n1"
      with m assms(5) show False by auto
    qed
  qed
  then show ?thesis by auto
qed

lemma own_bound: "wf_heap h \<Longrightarrow> c < chain_count h \<Longrightarrow> own h c \<subseteq> {..< sub_count h}"
  using wf_active [of h c] wf_pending [of h c] by (auto simp: own_def split: if_splits)

lemma own_disjoint:
  assumes wf: "wf_heap h" and c: "c < chain_count h" and d: "d < chain_count h" and dc: "d \<noteq> c"
  shows "own h c \<inter> own h d = {}"
proof -
  have "False" if "r \<in> own h c" "r \<in> own h d" for r
  proof -
    from that(1) consider "active h c = Some r" | "\<not> cloned h c" "r \<in> set (pending h c)"
      by (auto simp: own_def split: if_splits)
    then show False
    proof cases
      case 1
      from that(2) wf_actives [OF wf c d dc 1] wf_active_pending [OF wf c d 1] show False
        by (auto simp: own_def split: if_splits)
    next
      case 2
      from that(2) consider "active h d = Some r" | "\<not> cloned h d" "r \<in> set (pending h d)"
        by (auto simp: own_def split: if_splits)
      then show False
      proof cases
        case 1
        from wf_active_pending [OF wf d c 1] 2 show False by simp
      next
        case 2
        with wf_disjoint [OF wf c d dc] \<open>\<not> cloned h c\<close> \<open>r \<in> set (pending h c)\<close> show False
          by auto
      qed
    qed
  qed
  then show ?thesis by auto
qed

lemma next_chain_frame:
  "ChainIterator_next h c = (v, h') \<Longrightarrow>
     (\<forall>d. d \<noteq> c \<longrightarrow> active h' d = active h d) \<and> source_of h' = source_of h
     \<and> (\<forall>d. source_of h d \<noteq> source_of h c \<longrightarrow> pending h' d = pending h d)
     \<and> set (pending h' c) \<subseteq> set (pending h c)"
proof (induction h c arbitrary: v h' rule: ChainIterator_next.induct)
  case (1 h this)
  note nx = "1.prems" [unfolded ChainIterator_next.simps [of h this]]
  show ?case
  proof (cases "pull_active h this")
    case (Inl h1)
    with nx pull_active_Inl [OF Inl] show ?thesis by auto
  next
    case (Inr r)
    obtain a h1 where r: "r = (a, h1)" by (cases r)
    have p: "(\<forall>d. d \<noteq> this \<longrightarrow> active h1 d = active h d) \<and> source_of h1 = source_of h
      \<and> (\<forall>d. source_of h d \<noteq> source_of h this \<longrightarrow> pending h1 d = pending h d)
      \<and> set (pending h1 this) \<subseteq> set (pending h this)"
    proof (cases "active h this")
      case (Some a0)
      with pull_active_Some [OF Some] Inr r show ?thesis by simp
    next
      case None
      show ?thesis
      proof (cases "pending h this")
        case Nil
        with pull_active_Nil [OF None Nil] Inr show ?thesis by simp
      next
        case (Cons q qs)
        from pull_active_Cons [OF None Cons] Inr r have "pulled h this q qs a h1"
          by auto
        then show ?thesis
          by (auto simp: pulled_def fun_eq_iff)
      qed
    qed
    obtain w h2 where sn: "sub_next h1 a = (w, h2)" by (cases "sub_next h1 a")
    then have h2: "h2 = snd (sub_next h1 a)" by simp
    show ?thesis
    proof (cases "w \<noteq> Undefined")
      case True
      with nx Inr r sn have "h' = h2" by simp
      with p show ?thesis by (simp add: h2)
    next
      case False
      let ?h3 = "set_active h2 this None"
      from nx Inr r sn False have nx3: "ChainIterator_next ?h3 this = (v, h')"
        by simp
      from "1.IH" [OF Inr r [symmetric] refl sn [symmetric] False nx3]
      have ih: "\<And>d. d \<noteq> this \<Longrightarrow> active h' d = active h1 d" "source_of h' = source_of h1"
        "\<And>d. source_of h1 d \<noteq> source_of h1 this \<Longrightarrow> pending h' d = pending h1 d"
        "set (pending h' this) \<subseteq> set (pending h1 this)"
        by (auto simp: h2)
      with p show ?thesis by auto
    qed
  qed
qed

lemma next_own:
  assumes wf: "wf_heap h" and c: "c < chain_count h" and nx: "ChainIterator_next h c = (v, h')"
  shows "touched h h' \<subseteq> own h c \<union> {sub_count h ..< sub_count h'}"
    and "own h' c \<subseteq> own h c \<union> {sub_count h ..< sub_count h'}"
    and "\<And>d. d < chain_count h \<Longrightarrow> d \<noteq> c \<Longrightarrow> own h' d = own h d"
    and "sub_count h \<le> sub_count h'"
proof -
  note fr = next_frame [OF nx] and cf = next_chain_frame [OF nx]
  from next_sim [OF wf c nx] have wf': "wf_heap h'" and n: "chain_count h' = chain_count h"
    by simp_all
  show "sub_count h \<le> sub_count h'" using fr by simp
  show "touched h h' \<subseteq> own h c \<union> {sub_count h ..< sub_count h'}"
  proof
    fix r assume "r \<in> touched h h'"
    then have lt: "r < sub_count h'" and ch: "sub_count h \<le> r \<or> sub_objs h' r \<noteq> sub_objs h r"
      by (simp_all add: touched_def)
    show "r \<in> own h c \<union> {sub_count h ..< sub_count h'}"
    proof (cases "sub_count h \<le> r")
      case True
      with lt show ?thesis by simp
    next
      case False
      with ch have "r < sub_count h" "sub_objs h' r \<noteq> sub_objs h r" by simp_all
      with fr have "active h c = Some r \<or> (\<not> cloned h c \<and> r \<in> set (pending h c))"
        by blast
      then show ?thesis by (auto simp: own_def)
    qed
  qed
  show "own h' c \<subseteq> own h c \<union> {sub_count h ..< sub_count h'}"
  proof
    fix r assume "r \<in> own h' c"
    then consider "active h' c = Some r" | "\<not> cloned h' c" "r \<in> set (pending h' c)"
      by (auto simp: own_def split: if_splits)
    then show "r \<in> own h c \<union> {sub_count h ..< sub_count h'}"
    proof cases
      case 1
      from wf_active [OF wf' _ 1] c n have "r < sub_count h'" by simp
      with 1 fr show ?thesis
        by (auto simp: own_def split: if_splits)
    next
      case 2
      with fr cf show ?thesis by (auto simp: own_def)
    qed
  qed
  fix d assume d: "d < chain_count h" "d \<noteq> c"
  from wf_sources [OF wf c d] cf have "pending h' d = pending h d" by simp
  with cf fr d(2) show "own h' d = own h d"
    by (simp add: own_def)
qed

lemma mutated_own:
  "wf_heap h \<Longrightarrow>
     mutated c cs h \<subseteq> (if c < chain_count h then own h c else {}) \<union> {sub_count h ..}"
proof (induction cs arbitrary: h)
  case Nil
  then show ?case by simp
next
  case (Cons x cs)
  note wf = \<open>wf_heap h\<close>
  show ?case
  proof (cases x)
    case (NewChain objects)
    obtain c' h1 where ch: "chain_it h objects = (c', h1)"
      by (cases "chain_it h objects")
    from chain_it_created [OF ch] have cr: "created h objects c' h1" .
    note wf1 = created_wf [OF wf cr]
    have le: "sub_count h \<le> sub_count h1" using cr by (simp add: created_def)
    have n1: "chain_count h1 = Suc (chain_count h)" using cr by (simp add: created_def)
    have "(if c < chain_count h1 then own h1 c else {}) \<subseteq>
        (if c < chain_count h then own h c else {}) \<union> {sub_count h ..}"
    proof (cases "c < chain_count h")
      case True
      from created_old(2,3,5) [OF wf cr True] have "own h1 c = own h c"
        by (simp add: own_def)
      with True n1 show ?thesis by simp
    next
      case False
      show ?thesis
      proof (cases "c = c'")
        case True
        from created_new(2,5) [OF cr] have "own h1 c' \<subseteq> {sub_count h ..}"
          by (auto simp: own_def)
        with True False show ?thesis by simp
      next
        case neq: False
        with False created_new(1) [OF cr] n1 show ?thesis by simp
      qed
    qed
    from subset_fresh_trans [OF Cons.IH [OF wf1] this le] NewChain ch show ?thesis
      by simp
  next
    case (CallClone d)
    show ?thesis
    proof (cases "d < chain_count h")
      case True
      obtain c2 h1 where cl: "ChainIterator_clone h d = (c2, h1)"
        by (cases "ChainIterator_clone h d")
      from clone_copied [OF True cl] have cp: "copied h d c2 h1" .
      note wf1 = copied_wf [OF wf True cp]
      have le: "sub_count h \<le> sub_count h1" using cp by (simp add: copied_def)
      have n1: "chain_count h1 = Suc (chain_count h)" using cp by (simp add: copied_def)
      have "(if c < chain_count h1 then own h1 c else {}) \<subseteq>
          (if c < chain_count h then own h c else {}) \<union> {sub_count h ..}"
      proof (cases "c < chain_count h")
        case True
        from copied_old(2,3,5) [OF wf cp True] have "own h1 c \<subseteq> own h c"
          by (auto simp: own_def split: if_splits)
        with True n1 show ?thesis by auto
      next
        case False
        show ?thesis
        proof (cases "c = c2")
          case True
          from copied_new(2,3) [OF cp] have "own h1 c2 \<subseteq> {sub_count h ..}"
            by (cases "active h d") (auto simp: own_def)
          with True False show ?thesis by simp
        next
          case neq: False
          with False copied_new(1) [OF cp] n1 show ?thesis by simp
        qed
      qed
      from subset_fresh_trans [OF Cons.IH [OF wf1] this le] CallClone True cl show ?thesis
        by simp
    next
      case False
      with Cons.IH [OF wf] CallClone show ?thesis by simp
    qed
  next
    case (CallNext d)
    show ?thesis
    proof (cases "d < chain_count h")
      case True
      obtain v h1 where nx: "ChainIterator_next h d = (v, h1)"
        by (cases "ChainIterator_next h d")
      from next_sim [OF wf True nx] have wf1: "wf_heap h1" and n: "chain_count h1 = chain_count h"
        by simp_all
      note no = next_own [OF wf True nx]
      have "(if c < chain_count h1 then own h1 c else {}) \<subseteq>
          (if c < chain_count h then own h c else {}) \<union> {sub_count h ..}"
        using no(2) no(3) [of c] n by (cases "c = d") auto
      from subset_fresh_trans [OF Cons.IH [OF wf1] this no(4)]
      have m: "mutated c cs h1 \<subseteq> (if c < chain_count h then own h c else {}) \<union> {sub_count h ..}" .
      have h1: "h1 = snd (ChainIterator_next h d)" using nx by simp
      have "touched h h1 \<subseteq> (if c < chain_count h then own h c else {}) \<union> {sub_count h ..}" if "d = c"
        using no(1) True that by auto
      with m CallNext True show ?thesis
        unfolding h1 by auto
    next
      case False
      with Cons.IH [OF wf] CallNext show ?thesis by simp
    qed
  qed
qed

lemma mutated_disjoint:
  "wf_heap h \<Longrightarrow> c \<noteq> d \<Longrightarrow> mutated c cs h \<inter> mutated d cs h = {}"
proof (induction cs arbitrary: h)
  case Nil
  then show ?case by simp
next
  case (Cons x cs)
  note wf = \<open>wf_heap h\<close>
  show ?case
  proof (cases x)
    case (NewChain objects)
    obtain c' h1 where ch: "chain_it h objects = (c', h1)"
      by (cases "chain_it h objects")
    from created_wf [OF wf chain_it_created [OF ch]] have "wf_heap h1" .
    from Cons.IH [OF this Cons.prems(2)] NewChain ch show ?thesis by simp
  next
    case (CallClone e)
    show ?thesis
    proof (cases "e < chain_count h")
      case True
      obtain c2 h1 where cl: "ChainIterator_clone h e = (c2, h1)"
        by (cases "ChainIterator_clone h e")
      from copied_wf [OF wf True clone_copied [OF True cl]] have "wf_heap h1" .
      from Cons.IH [OF this Cons.prems(2)] CallClone True cl show ?thesis by simp
    next
      case False
      with Cons.IH [OF wf Cons.prems(2)] CallClone show ?thesis by simp
    qed
  next
    case (CallNext e)
    show ?thesis
    proof (cases "e < chain_count h")
      case False
      with Cons.IH [OF wf Cons.prems(2)] CallNext show ?thesis by simp
    next
      case True
      obtain v h1 where nx: "ChainIterator_next h e = (v, h1)"
        by (cases "ChainIterator_next h e")
      from next_sim [OF wf True nx] have wf1: "wf_heap h1" and n: "chain_count h1 = chain_count h"
        by simp_all
      note no = next_own [OF wf True nx]
      have sep: "touched h h1 \<inter> mutated f cs h1 = {}" if "f \<noteq> e" for f
      proof -
        let ?F = "if f < chain_count h then own h f else {}"
        have m: "mutated f cs h1 \<subseteq> ?F \<union> {sub_count h1 ..}"
          using mutated_own [OF wf1, of f cs] no(3) [of f] that n by auto
        have d: "own h e \<inter> ?F = {}"
          using own_disjoint [OF wf True _ \<open>f \<noteq> e\<close>] by simp
        have b: "?F \<subseteq> {..< sub_count h}"
          using own_bound [OF wf, of f] by simp
        from disjoint_fresh [OF no(1) m d own_bound [OF wf True] b no(4)] show ?thesis .
      qed
      from Cons.IH [OF wf1 Cons.prems(2)]
      have ih: "mutated c cs h1 \<inter> mutated d cs h1 = {}" .
      show ?thesis
      proof (cases "e = c")
        case True
        with sep [of d] Cons.prems(2) ih CallNext \<open>e < chain_count h\<close> nx show ?thesis
          by auto
      next
        case False
        show ?thesis
        proof (cases "e = d")
          case True
          with sep [of c] Cons.prems(2) ih CallNext \<open>e < chain_count h\<close> nx show ?thesis
            by auto
        next
          case False
          with \<open>e \<noteq> c\<close> ih CallNext \<open>e < chain_count h\<close> nx show ?thesis
            by simp
        qed
      qed
    qed
  qed
qed

subsection \<open>Chains made by chain\<close>

lemma chain_it_fst: "fst (chain_it h objects) = chain_count h"
  using chain_it_created [of h objects "fst (chain_it h objects)" "snd (chain_it h objects)"]
  by (simp add: created_def)

lemma world_Nil: "world [] = empty_heap"
  by (simp add: world_def)

lemma chain_toArray:
  assumes clean: "\<forall>xs \<in> set objects. Undefined \<notin> set xs"
    and ch: "chain_it (world cs) objects = (c, h)"
  shows "fst (toArray h c) = concat objects"
proof -
  obtain vs h' where t: "toArray h c = (vs, h')" by (cases "toArray h c")
  from toArray_nexts [OF t]
  have n: "fst (nexts (Suc (length vs)) h c) = vs @ [Undefined]" and u: "Undefined \<notin> set vs"
    by simp_all
  from clean have "Undefined \<notin> set (concat objects)" by auto
  from drained_eq [OF u this] n chain_nexts [OF clean ch, of "Suc (length vs)"] t
  show ?thesis by simp
qed

lemma map_iterables_arrays: "map_iterables h (map ArrayLike objects) = map_iter h objects"
  by (induction objects arbitrary: h) (simp_all add: iter_def split: prod.splits)

lemma map_iterables_effect:
  "map_iterables h objects = (rs, h1) \<Longrightarrow> distinct (iterators_of objects) \<Longrightarrow>
     \<forall>r \<in> set (iterators_of objects). r < sub_count h \<Longrightarrow>
     sub_count h \<le> sub_count h1
     \<and> outer_objs h1 = outer_objs h \<and> chain_objs h1 = chain_objs h
     \<and> outer_count h1 = outer_count h \<and> chain_count h1 = chain_count h
     \<and> (\<forall>r < sub_count h. sub_objs h1 r = sub_objs h r)
     \<and> distinct rs
     \<and> set rs \<subseteq> set (iterators_of objects) \<union> {sub_count h ..< sub_count h1}"
proof (induction objects arbitrary: h rs h1)
  case Nil
  then show ?case by simp
next
  case (Cons object objects)
  show ?case
  proof (cases object)
    case (ArrayLike xs)
    let ?h = "h\<lparr>sub_objs := (sub_objs h)(sub_count h := \<lparr>a_source = xs, a_index = 0\<rparr>), sub_count := Suc (sub_count h)\<rparr>"
    obtain rs' h2 where m: "map_iterables ?h objects = (rs', h2)"
      by (cases "map_iterables ?h objects")
    with Cons.prems(1) ArrayLike have rs: "rs = sub_count h # rs'" and h1: "h1 = h2"
      by (simp_all add: iter_def iter_array_def new_sub_def)
    from Cons.prems(2,3) ArrayLike have d: "distinct (iterators_of objects)"
      and lt: "\<forall>r \<in> set (iterators_of objects). r < sub_count h"
      by simp_all
    then have lt': "\<forall>r \<in> set (iterators_of objects). r < sub_count ?h"
      by auto
    from Cons.IH [OF m d lt'] have ih: "Suc (sub_count h) \<le> sub_count h2"
      "outer_objs h2 = outer_objs h" "chain_objs h2 = chain_objs h"
      "outer_count h2 = outer_count h" "chain_count h2 = chain_count h"
      "\<And>r. r < Suc (sub_count h) \<Longrightarrow> sub_objs h2 r = sub_objs ?h r"
      "distinct rs'"
      "set rs' \<subseteq> set (iterators_of objects) \<union> {Suc (sub_count h) ..< sub_count h2}"
      by auto
    have new: "sub_count h \<notin> set rs'"
      using ih(8) lt by auto
    have sub: "set rs \<subseteq> set (iterators_of (object # objects)) \<union> {sub_count h ..< sub_count h1}"
      using ih(1,8) rs h1 ArrayLike by auto
    have old: "\<forall>r < sub_count h. sub_objs h1 r = sub_objs h r"
      using ih(6) h1 by simp
    have "distinct rs" "sub_count h \<le> sub_count h1"
      using new ih(1,7) rs h1 by simp_all
    with sub old ih(2-5) h1 show ?thesis
      by blast
  next
    case (Iterator r)
    obtain rs' h2 where m: "map_iterables h objects = (rs', h2)"
      by (cases "map_iterables h objects")
    with Cons.prems(1) Iterator have rs: "rs = r # rs'" and h1: "h1 = h2"
      by (simp_all add: iter_def)
    from Cons.prems(2,3) Iterator have d: "distinct (iterators_of objects)"
      and lt: "\<forall>r \<in> set (iterators_of objects). r < sub_count h"
      and r: "r \<notin> set (iterators_of objects)" "r < sub_count h"
      by simp_all
    from Cons.IH [OF m d lt] have ih: "sub_count h \<le> sub_count h2"
      "outer_objs h2 = outer_objs h" "chain_objs h2 = chain_objs h"
      "outer_count h2 = outer_count h" "chain_count h2 = chain_count h"
      "\<forall>r < sub_count h. sub_objs h2 r = sub_objs h r"
      "distinct rs'"
      "set rs' \<subseteq> set (iterators_of objects) \<union> {sub_count h ..< sub_count h2}"
      by auto
    have new: "r \<notin> set rs'"
      using ih(8) r by auto
    have sub: "set rs \<subseteq> set (iterators_of (object # objects)) \<union> {sub_count h ..< sub_count h1}"
      using ih(8) rs h1 Iterator by auto
    have "distinct rs"
      using new ih(7) rs by simp
    with sub ih(1-6) h1 show ?thesis
      by blast
  qed
qed

lemma chain_iterables_wf:
  assumes wf: "wf_heap h" and dist: "distinct (iterators_of objects)"
    and ex: "\<forall>r \<in> set (iterators_of objects). r < sub_count h"
    and un: "\<forall>r \<in> set (iterators_of objects). \<forall>d < chain_count h. r \<notin> footprint h d"
    and ch: "chain_iterables h objects = (c, h')"
  shows "wf_heap h'"
proof -
  obtain rs h1 where m: "map_iterables h objects = (rs, h1)"
    by (cases "map_iterables h objects")
  note eff = map_iterables_effect [OF m dist ex]
  from ch m have h': "h' = snd (new_ChainIterator (snd (iter_iterators h1 rs)) (outer_count h1))"
    and c: "c = chain_count h1"
    by (auto simp: chain_iterables_def iter_iterators_def new_outer_def new_ChainIterator_def)
  from eff have n: "chain_count h' = Suc (chain_count h)" "outer_count h' = Suc (outer_count h)"
    "sub_count h' = sub_count h1" "sub_count h \<le> sub_count h'"
    by (simp_all add: h' iter_iterators_def new_outer_def new_ChainIterator_def)
  from eff have new: "c = chain_count h" "active h' c = None" "\<not> cloned h' c"
    "source_of h' c = outer_count h" "pending h' c = rs"
    by (simp_all add: h' c iter_iterators_def new_outer_def new_ChainIterator_def
        active_def cloned_def source_of_def pending_def remaining_def)
  have old: "d \<noteq> c" "active h' d = active h d" "cloned h' d = cloned h d"
    "source_of h' d = source_of h d" "pending h' d = pending h d" if "d < chain_count h" for d
    using that eff wf_source [OF wf that]
    by (simp_all add: h' c iter_iterators_def new_outer_def new_ChainIterator_def
        active_def cloned_def source_of_def pending_def remaining_def)
  have foot: "r < sub_count h" if "d < chain_count h" "r \<in> footprint h d" for d r
    using that wf_active [OF wf that(1), of r] wf_pending [OF wf that(1), of r]
    by (auto simp: footprint_def)
  have rs_lt: "r < sub_count h'" if "r \<in> set rs" for r
  proof -
    from that eff have "r \<in> set (iterators_of objects) \<or> r < sub_count h1"
      by auto
    with ex n show ?thesis
      by auto
  qed
  have rs_un: "r \<notin> footprint h d" if "r \<in> set rs" "d < chain_count h" for r d
  proof (cases "r \<in> set (iterators_of objects)")
    case True
    with un that(2) show ?thesis by blast
  next
    case False
    with that(1) eff have "sub_count h \<le> r" by auto
    with foot [OF that(2), of r] show ?thesis by auto
  qed
  have cases: "d = c \<or> d < chain_count h" if "d < chain_count h'" for d
    using that n new(1) by auto
  show ?thesis
  proof (rule wf_heapI)
    fix d assume "d < chain_count h'"
    from cases [OF this] show "source_of h' d < outer_count h'"
      using new(4) old(4) [of d] wf_source [OF wf, of d] n by auto
  next
    fix d a assume "d < chain_count h'" "active h' d = Some a"
    with cases [of d] show "a < sub_count h'"
      using new(2) old(2) [of d] wf_active [OF wf, of d a] n by auto
  next
    fix d r assume "d < chain_count h'" "r \<in> set (pending h' d)"
    with cases [of d] show "r < sub_count h'"
      using new(5) rs_lt [of r] old(5) [of d] wf_pending [OF wf, of d r] n by auto
  next
    fix d assume "d < chain_count h'" "\<not> cloned h' d"
    with cases [of d] show "distinct (pending h' d)"
      using new(5) eff old(3,5) [of d] wf_distinct [OF wf, of d] by auto
  next
    fix d d' assume "d < chain_count h'" "d' < chain_count h'" "d' \<noteq> d"
    with cases [of d] cases [of d'] show "source_of h' d' \<noteq> source_of h' d"
      using new(4) old(4) [of d] old(4) [of d'] wf_source [OF wf, of d] wf_source [OF wf, of d']
        wf_sources [OF wf, of d d'] by auto
  next
    fix d d' a assume "d < chain_count h'" "d' < chain_count h'" "d' \<noteq> d" "active h' d = Some a"
    with cases [of d] cases [of d'] show "active h' d' \<noteq> Some a"
      using new(2) old(2) [of d] old(2) [of d'] wf_actives [OF wf, of d d' a] by auto
  next
    fix d d' a assume a: "d < chain_count h'" "d' < chain_count h'" "active h' d = Some a"
    with cases [of d] new(2) have d: "d < chain_count h" by auto
    with a old(2) [of d] have act: "active h d = Some a" by simp
    then have fp: "a \<in> footprint h d" by (simp add: footprint_def)
    from cases [OF a(2)] show "a \<notin> set (pending h' d')"
    proof
      assume "d' = c"
      then show ?thesis using rs_un [OF _ d, of a] fp new(5) by auto
    next
      assume "d' < chain_count h"
      then show ?thesis using old(5) [of d'] wf_active_pending [OF wf d _ act, of d'] by simp
    qed
  next
    fix d d' assume a: "d < chain_count h'" "d' < chain_count h'" "d' \<noteq> d" "\<not> cloned h' d"
    from cases [OF a(1)] cases [OF a(2)] a(3)
    consider "d = c" "d' < chain_count h" | "d' = c" "d < chain_count h"
      | "d < chain_count h" "d' < chain_count h"
      by auto
    then show "set (pending h' d) \<inter> set (pending h' d') = {}"
    proof cases
      case 1
      then show ?thesis using rs_un [OF _ 1(2)] new(5) old(5) [OF 1(2)]
        by (auto simp: footprint_def)
    next
      case 2
      then show ?thesis using rs_un [OF _ 2(2)] new(5) old(5) [OF 2(2)]
        by (auto simp: footprint_def)
    next
      case 3
      then show ?thesis
        using a old(3,5) [of d] old(5) [of d'] wf_disjoint [OF wf, of d d'] by simp
    qed
  qed
qed

lemma wf_iter:
  assumes "wf_heap h" and "iter h object = (r, h1)"
  shows "wf_heap h1 \<and> chain_count h1 = chain_count h
    \<and> (\<forall>d < chain_count h. footprint h1 d = footprint h d)
    \<and> (case object of ArrayLike xs \<Rightarrow> r = sub_count h \<and> sub_count h1 = Suc (sub_count h)
        | Iterator r' \<Rightarrow> r = r' \<and> h1 = h)"
proof (cases object)
  case (ArrayLike xs)
  with assms(2) have h1: "h1 = h\<lparr>sub_objs := (sub_objs h)(sub_count h := \<lparr>a_source = xs, a_index = 0\<rparr>),
      sub_count := Suc (sub_count h)\<rparr>" and r: "r = sub_count h"
    by (auto simp: iter_def iter_array_def new_sub_def)
  have obs: "active h1 = active h" "cloned h1 = cloned h" "source_of h1 = source_of h"
    "pending h1 = pending h" "chain_count h1 = chain_count h" "outer_count h1 = outer_count h"
    "sub_count h1 = Suc (sub_count h)"
    by (simp_all add: h1 fun_eq_iff active_def cloned_def source_of_def pending_def)
  have "wf_heap h1"
    using assms(1) unfolding wf_heap_def obs by (auto simp: less_Suc_eq)
  with obs r ArrayLike show ?thesis
    by (simp add: footprint_def)
next
  case (Iterator r')
  with assms show ?thesis
    by (simp add: iter_def)
qed

lemma wf_array_and_iterator: "wf_heap array_and_iterator"
proof -
  obtain r h where i: "iter (empty_heap :: int heap) (ArrayLike [Val 2, Val 3]) = (r, h)"
    by (cases "iter (empty_heap :: int heap) (ArrayLike [Val 2, Val 3])")
  from wf_iter [OF wf_empty i] have wf: "wf_heap h" and n: "chain_count h = 0"
    and r: "r = 0" "sub_count h = 1"
    by (simp_all add: empty_heap_def)
  obtain c h' where ch: "chain_iterables h [ArrayLike [Val 1], Iterator r] = (c, h')"
    by (cases "chain_iterables h [ArrayLike [Val 1], Iterator r]")
  from chain_iterables_wf [OF wf _ _ _ ch] n r have "wf_heap h'"
    by simp
  with i ch show ?thesis
    by (simp add: array_and_iterator_def)
qed

lemma chain_iterables_arrays: "chain_iterables h (map ArrayLike objects) = chain_it h objects"
  by (simp add: chain_iterables_def chain_it_def map_iterables_arrays)

section \<open>Properties of the chain combinator\<close>

text \<open>
  C1, as the specification states it, on sources that hold \<open>undefined\<close>:
  \<open>chain([1, undefined, 2], [3])\<close> drained yields 1 and 3. The element \<open>undefined\<close> is
  taken for the exhaustion of the first source, and the 2 behind it is never read.
\<close>

theorem chain_undefined_element_counterexample:
  "fst (toArray (snd (chain_it empty_heap [[Val 1, Undefined, Val 2], [Val (3::int)]])) 0)
     = [Val 1, Val 3]
   \<and> fst (nexts 5 (snd (chain_it empty_heap [[Val 1, Undefined, Val 2], [Val (3::int)]])) 0)
     = [Val 1, Val 3, Undefined, Undefined, Undefined]"
  by code_simp

text \<open>
  C1, amended. For every list of sources none of which holds \<open>undefined\<close>, in every heap
  that a run builds: the calls of \<open>next\<close> on \<open>chain(sources)\<close> yield every element of the
  first source in order, then every element of the second, and so on, and the exhausted
  signal from then on; draining yields exactly the concatenation; and with no sources the
  first call of \<open>next\<close> returns the exhausted signal.
\<close>

theorem chain_concatenates:
  assumes "\<forall>xs \<in> set objects. Undefined \<notin> set xs"
    and "chain_it (world cs) objects = (c, h)"
  shows "fst (nexts n h c) =
           take n (concat objects) @ replicate (n - length (concat objects)) Undefined
    \<and> fst (toArray h c) = concat objects
    \<and> fst (ChainIterator_next (snd (chain_it (world cs) [])) (fst (chain_it (world cs) [])))
        = Undefined"
proof -
  have "chain_it (world cs) [] = (fst (chain_it (world cs) []), snd (chain_it (world cs) []))"
    by simp
  from chain_nexts [OF _ this, of 1]
  have "fst (ChainIterator_next (snd (chain_it (world cs) [])) (fst (chain_it (world cs) [])))
      = Undefined"
    by (simp split: prod.splits)
  with chain_nexts [OF assms] chain_toArray [OF assms] show ?thesis
    by simp
qed

theorem chain_concatenates_witness:
  "fst (toArray (snd (chain_it empty_heap [[Val 1, Val 2, Val 3], [Val 4, Val 5, Val (6::int)]])) 0)
     = [Val 1, Val 2, Val 3, Val 4, Val 5, Val 6]
   \<and> fst (nexts 8 (snd (chain_it empty_heap [[Val 1, Val 2, Val 3], [Val 4, Val 5, Val (6::int)]])) 0)
     = [Val 1, Val 2, Val 3, Val 4, Val 5, Val 6, Undefined, Undefined]"
proof -
  let ?objects = "[[Val 1, Val 2, Val 3], [Val 4, Val 5, Val (6::int)]]"
  have clean: "\<forall>xs \<in> set ?objects. Undefined \<notin> set xs"
    by simp
  have ch: "chain_it (world []) ?objects = (0, snd (chain_it empty_heap ?objects))"
    using chain_it_fst [of empty_heap ?objects]
    by (simp add: world_Nil prod_eq_iff empty_heap_def)
  from chain_concatenates [OF clean ch, of 8] show ?thesis
    by (simp add: numeral_2_eq_2)
qed

text \<open>
  C2, as the specification states it, on a chain whose sources are one iterator listed
  twice: \<open>inner = iter([1, 2])\<close> and \<open>C = chain(inner, inner)\<close>. Drained as it is, \<open>C\<close>
  yields 1, 2: the second pull gives the same object, which is exhausted by then. After
  \<open>C.clone()\<close> the clone drained yields 1, 2, 1, 2, and so does \<open>C\<close>: with the flag set
  every pull takes a copy of \<open>inner\<close>, which is never advanced itself. So the clone does
  not yield what \<open>C\<close> would have yielded, and the call of \<open>clone\<close> changes what \<open>C\<close>
  yields. Mid-traversal, after one call of \<open>next\<close> and then \<open>clone\<close>, the clone drained
  at once yields 2, 2, but it yields 2 when \<open>C\<close> has been advanced once before: advancing
  \<open>C\<close> changes the remaining output of the clone.
\<close>

theorem clone_shared_source_counterexample:
  "fst (toArray listed_twice 0) = [Val 1, Val 2]
   \<and> fst (ChainIterator_clone listed_twice 0) = 1
   \<and> fst (toArray (snd (ChainIterator_clone listed_twice 0)) 1) = [Val 1, Val 2, Val 1, Val 2]
   \<and> fst (toArray (snd (ChainIterator_clone listed_twice 0)) 0) = [Val 1, Val 2, Val 1, Val 2]
   \<and> fst (ChainIterator_next listed_twice 0) = Val 1
   \<and> fst (ChainIterator_clone (snd (ChainIterator_next listed_twice 0)) 0) = 1
   \<and> fst (toArray (snd (ChainIterator_clone (snd (ChainIterator_next listed_twice 0)) 0)) 1)
       = [Val 2, Val 2]
   \<and> fst (toArray (snd (ChainIterator_next
         (snd (ChainIterator_clone (snd (ChainIterator_next listed_twice 0)) 0)) 0)) 1)
       = [Val 2]"
  by code_simp

text \<open>
  C2, amended: in a heap without shared sub-iterators (\<open>wf_heap\<close>, which holds in every
  heap built by \<open>chain\<close> over arrays, \<open>next\<close> and \<open>clone\<close>), for every chain \<open>c\<close>, so at
  any point of its traversal, \<open>clone\<close> gives a new chain object \<open>c2\<close>, other than \<open>c\<close>,
  with an outer iterator of its own and, when \<open>c\<close> has an active sub-iterator, a new
  active sub-iterator of its own; the heap after the clone is again without shared
  sub-iterators. The calls of \<open>next\<close> on \<open>c2\<close> return what the calls on \<open>c\<close> would have
  returned from that point on, and the clone leaves that of \<open>c\<close> unchanged. After it, in
  every further run \<open>cs'\<close> (calls of \<open>next\<close> and \<open>clone\<close> on any chains, in any order, and
  new chains over arrays), the values returned to \<open>c2\<close> and the values returned to \<open>c\<close>
  are each the values that \<open>c\<close> alone would have returned before the clone: advancing
  one never affects the other, also for sub-iterators not yet reached.
\<close>

theorem clone_independent_amended:
  assumes "wf_heap h" and "c < chain_count h"
    and "ChainIterator_clone h c = (c2, h1)"
  shows "c2 \<noteq> c \<and> c2 = chain_count h \<and> chain_count h1 = Suc (chain_count h)
    \<and> source_of h1 c2 \<noteq> source_of h1 c
    \<and> active h1 c = active h c
    \<and> (active h1 c2 = None) = (active h c = None)
    \<and> (\<forall>a. active h1 c2 = Some a \<longrightarrow> active h1 c \<noteq> Some a \<and> sub_count h \<le> a)
    \<and> wf_heap h1
    \<and> fst (nexts n h1 c2) = fst (nexts n h c)
    \<and> fst (nexts n h1 c) = fst (nexts n h c)
    \<and> returned c2 (fst (run cs' h1)) = fst (nexts (calls c2 cs') h c)
    \<and> returned c (fst (run cs' h1)) = fst (nexts (calls c cs') h c)"
proof -
  note wf = assms(1) and c = assms(2)
  from clone_copied [OF assms(2,3)] have cp: "copied h c c2 h1" .
  have wf1: "wf_heap h1" and c2: "c2 < chain_count h1" and c1: "c < chain_count h1"
    using copied_wf [OF wf c cp] cp c by (simp_all add: copied_def)
  have v2: "view h1 c2 = view h c" and v1: "view h1 c = view h c"
    using copied_view [OF wf c cp] c by simp_all
  from cp c have new: "c2 \<noteq> c" "c2 = chain_count h" "chain_count h1 = Suc (chain_count h)"
    by (simp_all add: copied_def)
  from cp new(1) have src: "source_of h1 c2 = outer_count h" "source_of h1 c = source_of h c"
    by (simp_all add: copied_def)
  with wf_source [OF wf c] have s: "source_of h1 c2 \<noteq> source_of h1 c"
    by simp
  from cp new(1) have act: "active h1 c = active h c"
    "active h1 c2 = map_option (\<lambda>_. sub_count h) (active h c)"
    by (simp_all add: copied_def)
  have a0: "(active h1 c2 = None) = (active h c = None)"
    by (simp add: act)
  have a1: "\<forall>a. active h1 c2 = Some a \<longrightarrow> active h1 c \<noteq> Some a \<and> sub_count h \<le> a"
    using wf_active [OF wf c] by (auto simp: act)
  have "returned d (fst (run cs' h1)) = fst (pnexts (calls d cs') (view h1 d))"
    if "d < chain_count h1" for d
    using run_sim [OF wf1 that, of cs'] by simp
  from this [OF c2] this [OF c1]
  have r: "fst (nexts n h1 c2) = fst (nexts n h c)
    \<and> fst (nexts n h1 c) = fst (nexts n h c)
    \<and> returned c2 (fst (run cs' h1)) = fst (nexts (calls c2 cs') h c)
    \<and> returned c (fst (run cs' h1)) = fst (nexts (calls c cs') h c)"
    by (simp add: nexts_fst [OF wf1 c2] nexts_fst [OF wf1 c1] nexts_fst [OF wf c] v1 v2)
  from new s act(1) a0 a1 wf1 r show ?thesis
    by blast
qed

theorem clone_independent_amended_witness:
  "fst (ChainIterator_clone (world two_by_two) 0) = 1
   \<and> returned 1 (fst (run [CallNext 0, CallNext 1, CallNext 0, CallNext 0, CallNext 1,
       CallNext 1, CallNext 0, CallNext 1] (snd (ChainIterator_clone (world two_by_two) 0))))
     = [Val 2, Val 3, Val 4, Undefined]
   \<and> returned 0 (fst (run [CallNext 0, CallNext 1, CallNext 0, CallNext 0, CallNext 1,
       CallNext 1, CallNext 0, CallNext 1] (snd (ChainIterator_clone (world two_by_two) 0))))
     = [Val 2, Val 3, Val 4, Undefined]
   \<and> active (snd (ChainIterator_clone (world two_by_two) 0)) 0 = Some 0
   \<and> active (snd (ChainIterator_clone (world two_by_two) 0)) 1 = Some 2
   \<and> fst (nexts 3 (snd (ChainIterator_clone array_and_iterator 0)) 1) = [Val 1, Val 2, Val 3]"
proof -
  let ?cs' = "[CallNext 0, CallNext 1, CallNext 0, CallNext 0, CallNext 1,
       CallNext 1, CallNext 0, CallNext 1] :: int call list"
  have c: "0 < chain_count (world two_by_two)"
    by code_simp
  have f: "fst (ChainIterator_clone (world two_by_two) 0) = 1"
    by code_simp
  then have cl: "ChainIterator_clone (world two_by_two) 0
      = (1, snd (ChainIterator_clone (world two_by_two) 0))"
    by (simp add: prod_eq_iff)
  have n: "calls 1 ?cs' = 4" "calls 0 ?cs' = 4"
    by (simp_all add: calls_def)
  have v: "fst (nexts 4 (world two_by_two) 0) = [Val 2, Val 3, Val 4, Undefined]"
    by code_simp
  have a: "active (world two_by_two) 0 = Some 0" "sub_count (world two_by_two) = 2"
    by code_simp+
  note t = clone_independent_amended [OF wf_world c cl, of 0 ?cs']
  from t have "returned 1 (fst (run ?cs' (snd (ChainIterator_clone (world two_by_two) 0))))
      = fst (nexts (calls 1 ?cs') (world two_by_two) 0)"
    and "returned 0 (fst (run ?cs' (snd (ChainIterator_clone (world two_by_two) 0))))
      = fst (nexts (calls 0 ?cs') (world two_by_two) 0)"
    and a': "active (snd (ChainIterator_clone (world two_by_two) 0)) 0 = active (world two_by_two) 0"
    by blast+
  then have r: "returned 1 (fst (run ?cs' (snd (ChainIterator_clone (world two_by_two) 0))))
     = [Val 2, Val 3, Val 4, Undefined]
   \<and> returned 0 (fst (run ?cs' (snd (ChainIterator_clone (world two_by_two) 0))))
     = [Val 2, Val 3, Val 4, Undefined]"
    unfolding n v by simp
  from a' a have a0: "active (snd (ChainIterator_clone (world two_by_two) 0)) 0 = Some 0"
    by simp
  have "active (snd (ChainIterator_clone (world two_by_two) 0)) 1 = Some 2"
    by code_simp
  moreover have wf2: "wf_heap array_and_iterator"
    by (rule wf_array_and_iterator)
  have c': "0 < chain_count array_and_iterator"
    by code_simp
  have "fst (ChainIterator_clone array_and_iterator 0) = 1"
    by code_simp
  then have cl': "ChainIterator_clone array_and_iterator 0
      = (1, snd (ChainIterator_clone array_and_iterator 0))"
    by (simp add: prod_eq_iff)
  have v': "fst (nexts 3 array_and_iterator 0) = [Val 1, Val 2, Val 3]"
    by code_simp
  from clone_independent_amended [OF wf2 c' cl', of 3]
  have "fst (nexts 3 (snd (ChainIterator_clone array_and_iterator 0)) 1)
      = fst (nexts 3 array_and_iterator 0)"
    by blast
  with v' have "fst (nexts 3 (snd (ChainIterator_clone array_and_iterator 0)) 1) = [Val 1, Val 2, Val 3]"
    by simp
  ultimately show ?thesis
    using f r a0 by simp
qed

text \<open>
  C3, as the specification states it, on two chains built over one iterator:
  \<open>inner = iter([1, 2, 3])\<close>, \<open>c = chain(inner)\<close> and \<open>d = chain(inner)\<close>. No \<open>clone\<close> is
  called, so both flags stay unset; \<open>c.next()\<close> returns 1 and \<open>d.next()\<close> returns 2, each
  call advances the object \<open>inner\<close> in place, and \<open>inner\<close> is the active sub-iterator of
  both chains.
\<close>

theorem shared_sub_iterator_counterexample:
  "fst (ChainIterator_next shared_source 0) = Val 1
   \<and> fst (ChainIterator_next (snd (ChainIterator_next shared_source 0)) 1) = Val 2
   \<and> touched shared_source (snd (ChainIterator_next shared_source 0)) = {0}
   \<and> touched (snd (ChainIterator_next shared_source 0))
        (snd (ChainIterator_next (snd (ChainIterator_next shared_source 0)) 1)) = {0}
   \<and> active (snd (ChainIterator_next (snd (ChainIterator_next shared_source 0)) 1)) 0 = Some 0
   \<and> active (snd (ChainIterator_next (snd (ChainIterator_next shared_source 0)) 1)) 1 = Some 0
   \<and> cloned (snd (ChainIterator_next (snd (ChainIterator_next shared_source 0)) 1)) 0 = False
   \<and> cloned (snd (ChainIterator_next (snd (ChainIterator_next shared_source 0)) 1)) 1 = False"
  by code_simp

text \<open>
  C3, amended. In every heap and for every chain \<open>c\<close> of it: \<open>clone\<close> makes a chain other
  than \<open>c\<close> and sets the flag of both; a flag that is set stays set over every further
  run; when a chain whose flag is set pulls a sub-iterator \<open>p\<close> that exists, its active
  sub-iterator becomes a new object that is a copy of \<open>p\<close>, and \<open>p\<close> itself is unchanged;
  a call of \<open>next\<close> on such a chain changes no existing sub-iterator but its own active
  one, and its active sub-iterator afterwards is the old one or a newly created one. In a
  heap without shared sub-iterators (\<open>wf_heap\<close>, which holds in every heap built by
  \<open>chain\<close> over arrays, \<open>next\<close> and \<open>clone\<close>) no other chain has the active sub-iterator
  of \<open>c\<close>; a call of \<open>next\<close> on \<open>c\<close> changes no sub-iterator that another chain holds or
  has still to pull; and over every further run, the sets of sub-iterator objects that
  the calls of \<open>next\<close> of two different chains write to are disjoint. Two chains built
  over one iterator are not protected by the flag.
\<close>

theorem cloned_flag_amended:
  assumes "c < chain_count h"
  shows "(ChainIterator_clone h c = (c2, h1) \<longrightarrow> c2 \<noteq> c \<and> cloned h1 c \<and> cloned h1 c2)
    \<and> (cloned h c \<longrightarrow> cloned (snd (run cs' h)) c)
    \<and> (cloned h c \<and> active h c = None \<and> pending h c = p # ps \<and> p < sub_count h \<longrightarrow>
          (\<exists>h2. pull_active h c = Inr (sub_count h, h2)
              \<and> active h2 c = Some (sub_count h)
              \<and> sub_objs h2 (sub_count h) = sub_objs h p
              \<and> sub_objs h2 p = sub_objs h p))
    \<and> (cloned h c \<and> ChainIterator_next h c = (v, h') \<longrightarrow>
          (\<forall>r < sub_count h. active h c \<noteq> Some r \<longrightarrow> sub_objs h' r = sub_objs h r)
        \<and> (\<forall>a. active h' c = Some a \<longrightarrow> active h c = Some a \<or> sub_count h \<le> a))
    \<and> (wf_heap h \<longrightarrow>
          (\<forall>d < chain_count h. d \<noteq> c \<longrightarrow>
             (\<forall>a. active h c = Some a \<longrightarrow> active h d \<noteq> Some a)
           \<and> (ChainIterator_next h c = (v, h') \<longrightarrow>
                (\<forall>r \<in> footprint h d. sub_objs h' r = sub_objs h r))))
    \<and> (wf_heap h \<and> e \<noteq> f \<longrightarrow> mutated e cs' h \<inter> mutated f cs' h = {})"
proof (intro conjI impI allI)
  {
    assume "ChainIterator_clone h c = (c2, h1)"
    from clone_copied [OF assms this] assms show "c2 \<noteq> c" "cloned h1 c" "cloned h1 c2"
      by (simp_all add: copied_def)
  }
  {
    assume "cloned h c"
    from run_cloned [OF this assms] show "cloned (snd (run cs' h)) c" .
  }
  {
    assume "cloned h c \<and> active h c = None \<and> pending h c = p # ps \<and> p < sub_count h"
    then show "\<exists>h2. pull_active h c = Inr (sub_count h, h2)
              \<and> active h2 c = Some (sub_count h)
              \<and> sub_objs h2 (sub_count h) = sub_objs h p
              \<and> sub_objs h2 p = sub_objs h p"
      using pull_cloned [of h c p ps] by blast
  }
  {
    fix r
    assume a: "cloned h c \<and> ChainIterator_next h c = (v, h')"
      and r: "r < sub_count h" "active h c \<noteq> Some r"
    then have nx: "ChainIterator_next h c = (v, h')" by simp
    from next_frame [OF nx] a r show "sub_objs h' r = sub_objs h r"
      by blast
  }
  {
    fix a
    assume a: "cloned h c \<and> ChainIterator_next h c = (v, h')" and act: "active h' c = Some a"
    then have nx: "ChainIterator_next h c = (v, h')" by simp
    from next_frame [OF nx] a act show "active h c = Some a \<or> sub_count h \<le> a"
      by auto
  }
  {
    fix d a
    assume wf: "wf_heap h" and d: "d < chain_count h" "d \<noteq> c" and act: "active h c = Some a"
    from wf_actives [OF wf assms d act] show "active h d \<noteq> Some a" .
  }
  {
    fix d
    assume wf: "wf_heap h" and d: "d < chain_count h" "d \<noteq> c"
      and nx: "ChainIterator_next h c = (v, h')"
    show "\<forall>r \<in> footprint h d. sub_objs h' r = sub_objs h r"
      using next_other_footprint [OF wf assms d nx] by blast
  }
  {
    assume "wf_heap h \<and> e \<noteq> f"
    then have wf: "wf_heap h" and "e \<noteq> f" by simp_all
    from mutated_disjoint [OF wf this(2)] show "mutated e cs' h \<inter> mutated f cs' h = {}" .
  }
qed

theorem cloned_flag_amended_witness:
  "fst (ChainIterator_clone (world two_by_two) 0) = 1
   \<and> cloned (world two_by_two) 0 = False
   \<and> cloned (snd (ChainIterator_clone (world two_by_two) 0)) 0
   \<and> cloned (snd (ChainIterator_clone (world two_by_two) 0)) 1
   \<and> cloned (snd (ChainIterator_clone shared_source 0)) 0
   \<and> cloned (snd (run [CallNext 1, CallNext 1, CallNext 1] (world two_clones))) 1
   \<and> active (world two_clones) 1 \<noteq> active (world two_clones) 0
   \<and> sub_objs (snd (ChainIterator_next (world two_clones) 1)) 3 = sub_objs (world two_clones) 3
   \<and> mutated 0 [CallNext 1, CallNext 1, CallNext 1] (world two_clones)
       \<inter> mutated 1 [CallNext 1, CallNext 1, CallNext 1] (world two_clones) = {}
   \<and> (\<exists>h2. pull_active (world fresh_clone) 0 = Inr (2, h2) \<and> active h2 0 = Some 2
         \<and> sub_objs h2 2 = sub_objs (world fresh_clone) 0)"
proof -
  have c0: "(0::nat) < chain_count (world two_by_two)"
    by code_simp
  have f0: "fst (ChainIterator_clone (world two_by_two) 0) = 1"
    by code_simp
  then have cl0: "ChainIterator_clone (world two_by_two) 0
      = (1, snd (ChainIterator_clone (world two_by_two) 0))"
    by (simp add: prod_eq_iff)
  have u0: "cloned (world two_by_two) 0 = False"
    by code_simp
  from cloned_flag_amended [OF c0, of 1 "snd (ChainIterator_clone (world two_by_two) 0)"] cl0
  have first: "cloned (snd (ChainIterator_clone (world two_by_two) 0)) 0
   \<and> cloned (snd (ChainIterator_clone (world two_by_two) 0)) 1"
    by simp
  have cs: "(0::nat) < chain_count shared_source"
    by code_simp
  have "fst (ChainIterator_clone shared_source 0) = 2"
    by code_simp
  then have cls: "ChainIterator_clone shared_source 0
      = (2, snd (ChainIterator_clone shared_source 0))"
    by (simp add: prod_eq_iff)
  from cloned_flag_amended [OF cs, of 2 "snd (ChainIterator_clone shared_source 0)"] cls
  have shared: "cloned (snd (ChainIterator_clone shared_source 0)) 0"
    by simp
  have c': "(0::nat) < chain_count (world fresh_clone)"
    by code_simp
  have st: "cloned (world fresh_clone) 0 \<and> active (world fresh_clone) 0 = None
      \<and> pending (world fresh_clone) 0 = 0 # [1] \<and> 0 < sub_count (world fresh_clone)"
    by code_simp
  have n2: "sub_count (world fresh_clone) = 2"
    by code_simp
  note t = cloned_flag_amended [OF c', where p = 0 and ps = "[1]"]
  from t [THEN conjunct2, THEN conjunct2, THEN conjunct1] st
  have "\<exists>h2. pull_active (world fresh_clone) 0 = Inr (sub_count (world fresh_clone), h2)
      \<and> active h2 0 = Some (sub_count (world fresh_clone))
      \<and> sub_objs h2 (sub_count (world fresh_clone)) = sub_objs (world fresh_clone) 0
      \<and> sub_objs h2 0 = sub_objs (world fresh_clone) 0"
    by (rule mp)
  then have pull: "\<exists>h2. pull_active (world fresh_clone) 0 = Inr (2, h2) \<and> active h2 0 = Some 2
         \<and> sub_objs h2 2 = sub_objs (world fresh_clone) 0"
    unfolding n2 by blast
  have c: "(1::nat) < chain_count (world two_clones)" and d: "(0::nat) < chain_count (world two_clones)"
    by code_simp+
  have fl: "cloned (world two_clones) 1" by code_simp
  have act: "active (world two_clones) 1 = Some 2" "active (world two_clones) 0 = Some 3"
    by code_simp+
  then have fp: "3 \<in> footprint (world two_clones) 0"
    by (simp add: footprint_def)
  have nx: "ChainIterator_next (world two_clones) 1
      = (fst (ChainIterator_next (world two_clones) 1), snd (ChainIterator_next (world two_clones) 1))"
    by simp
  note wf = wf_world [of two_clones]
  from cloned_flag_amended [OF c, where cs' = "[CallNext 1, CallNext 1, CallNext 1]"
      and v = "fst (ChainIterator_next (world two_clones) 1)"
      and h' = "snd (ChainIterator_next (world two_clones) 1)" and e = 0 and f = 1]
    wf d fl act fp nx
  have "cloned (snd (run [CallNext 1, CallNext 1, CallNext 1] (world two_clones))) 1
   \<and> active (world two_clones) 1 \<noteq> active (world two_clones) 0
   \<and> sub_objs (snd (ChainIterator_next (world two_clones) 1)) 3 = sub_objs (world two_clones) 3
   \<and> mutated 0 [CallNext 1, CallNext 1, CallNext 1] (world two_clones)
       \<inter> mutated 1 [CallNext 1, CallNext 1, CallNext 1] (world two_clones) = {}"
    by auto
  with pull first shared f0 u0 show ?thesis by blast
qed

text \<open>
  C4. In every heap that a run builds: when the sub-iterators that a chain reads next
  (its active one, if any, and then those still to be pulled) start with \<open>k\<close> exhausted
  ones followed by one whose next value is \<open>x\<close>, a single call of \<open>next\<close> returns \<open>x\<close>, for
  every \<open>k\<close>; afterwards that sub-iterator is the active one. And
  \<open>chain([], [1,2], [], [3])\<close> drained yields exactly 1, 2, 3.
\<close>

theorem next_skips_exhausted:
  assumes "c < chain_count (world cs)"
    and "map (sub_rest (world cs)) (upcoming (world cs) c) = replicate k [] @ (Val x # xs) # rest"
    and "ChainIterator_next (world cs) c = (v, h')"
  shows "v = Val x
    \<and> map (sub_rest h') (upcoming h' c) = xs # rest
    \<and> fst (toArray (snd (chain_it empty_heap [[], [Val 1, Val 2], [], [Val (3::int)]])) 0)
         = [Val 1, Val 2, Val 3]"
proof -
  note wf = wf_world [of cs]
  from assms(2) have "stack (view (world cs) c) = replicate k [] @ (Val x # xs) # rest"
    by (simp add: stack_view)
  from pnext_skip [OF this] next_sim [OF wf assms(1,3)]
  have "v = Val x" "view h' c = (Some xs, rest)"
    by simp_all
  then have "v = Val x" "map (sub_rest h') (upcoming h' c) = xs # rest"
    using stack_view [of h' c] by (simp_all add: stack_def)
  moreover
  let ?objects = "[[], [Val 1, Val 2], [], [Val (3::int)]]"
  have "chain_it (world []) ?objects = (0, snd (chain_it empty_heap ?objects))"
    using chain_it_fst [of empty_heap ?objects]
    by (simp add: world_Nil prod_eq_iff empty_heap_def)
  from chain_toArray [OF _ this] have "fst (toArray (snd (chain_it empty_heap ?objects)) 0)
      = [Val 1, Val 2, Val 3]"
    by simp
  ultimately show ?thesis by simp
qed

theorem next_skips_exhausted_witness:
  "fst (ChainIterator_next (world after_two) 0) = Val 3
   \<and> map (sub_rest (snd (ChainIterator_next (world after_two) 0)))
        (upcoming (snd (ChainIterator_next (world after_two) 0)) 0) = [[Val 4]]"
proof -
  have c: "0 < chain_count (world after_two)"
    by code_simp
  have u: "map (sub_rest (world after_two)) (upcoming (world after_two) 0)
      = replicate 3 [] @ (Val 3 # [Val 4]) # []"
    by code_simp
  have nx: "ChainIterator_next (world after_two) 0
      = (fst (ChainIterator_next (world after_two) 0), snd (ChainIterator_next (world after_two) 0))"
    by simp
  from next_skips_exhausted [OF c u nx] show ?thesis
    by simp
qed

text \<open>
  C5. In every heap that a run builds: once a call of \<open>next\<close> on a chain has returned the
  exhausted signal, the chain has no active sub-iterator and its outer iterator is
  exhausted; the next call returns the exhausted signal again and changes nothing; and in
  every further run, whatever else is called in between, every call of \<open>next\<close> on that
  chain returns the exhausted signal.
\<close>

theorem exhaustion_idempotent:
  assumes "c < chain_count (world cs)"
    and "ChainIterator_next (world cs) c = (Undefined, h1)"
  shows "active h1 c = None \<and> pending h1 c = []
    \<and> ChainIterator_next h1 c = (Undefined, h1)
    \<and> returned c (fst (run cs' h1)) = replicate (calls c cs') Undefined"
proof -
  note wf = wf_world [of cs]
  from next_sim [OF wf assms]
  have p: "pnext (view (world cs) c) = (Undefined, view h1 c)" and wf1: "wf_heap h1"
    and c1: "c < chain_count h1"
    using assms(1) by simp_all
  from pnext_exhausted [of "view (world cs) c"] p have v: "view h1 c = (None, [])"
    by simp
  then have a: "active h1 c = None" and e: "pending h1 c = []"
    by (simp_all add: view_def)
  from pull_active_Nil [OF a e] have "ChainIterator_next h1 c = (Undefined, h1)"
    by (simp add: ChainIterator_next.simps [of h1 c])
  moreover from run_sim [OF wf1 c1, of cs'] v
  have "returned c (fst (run cs' h1)) = replicate (calls c cs') Undefined"
    by (simp add: pnexts_done)
  ultimately show ?thesis using a e by simp
qed

theorem exhaustion_idempotent_witness:
  "returned 0 (fst (run [CallNext 0, CallClone 0, CallNext 1, CallNext 0, NewChain [[Val 7]],
       CallNext 2, CallNext 0] (snd (ChainIterator_next (world drained_once) 0))))
     = [Undefined, Undefined, Undefined]"
proof -
  let ?cs' = "[CallNext 0, CallClone 0, CallNext 1, CallNext 0, NewChain [[Val 7]],
       CallNext 2, CallNext 0] :: int call list"
  have c: "0 < chain_count (world drained_once)"
    by code_simp
  have "fst (ChainIterator_next (world drained_once) 0) = Undefined"
    by code_simp
  then have nx: "ChainIterator_next (world drained_once) 0
      = (Undefined, snd (ChainIterator_next (world drained_once) 0))"
    by (simp add: prod_eq_iff)
  have n: "calls 0 ?cs' = 3"
    by (simp add: calls_def)
  from exhaustion_idempotent [OF c nx, of ?cs'] n show ?thesis
    by (simp add: numeral_3_eq_3)
qed

text \<open>
  C6, as the specification states it: the exhausted signal is the value \<open>undefined\<close>,
  which a source can hold. On \<open>chain([undefined, 1])\<close> the first call of \<open>next\<close> returns
  what it returns on \<open>chain()\<close>.
\<close>

theorem undefined_is_the_exhausted_signal_counterexample:
  "fst (ChainIterator_next (snd (chain_it empty_heap [[Undefined, Val (1::int)]])) 0) = Undefined
   \<and> fst (ChainIterator_next (snd (chain_it empty_heap ([] :: int jsval list list))) 0) = Undefined"
  by code_simp

text \<open>
  C6, amended. \<open>next\<close> signals exhaustion by returning the value \<open>undefined\<close>. The signal
  is distinguishable from every data value other than \<open>undefined\<close>: on sources that do
  not hold \<open>undefined\<close>, the call number \<open>i\<close> (from zero) returns \<open>undefined\<close> exactly
  when all the elements have been returned before it, and returns element \<open>i\<close> of the
  concatenation otherwise.
\<close>

theorem exhausted_signal_amended:
  assumes "\<forall>xs \<in> set objects. Undefined \<notin> set xs"
    and "chain_it (world cs) objects = (c, h)"
    and "i < n"
  shows "(fst (nexts n h c) ! i = Undefined) = (length (concat objects) \<le> i)
    \<and> (i < length (concat objects) \<longrightarrow> fst (nexts n h c) ! i = concat objects ! i)"
proof -
  from assms(1) have u: "Undefined \<notin> set (concat objects)" by auto
  show ?thesis
  proof (cases "i < length (concat objects)")
    case True
    with u have "concat objects ! i \<noteq> Undefined"
      by (metis nth_mem)
    with True assms(3) show ?thesis
      by (simp add: chain_nexts [OF assms(1,2)] nth_append)
  next
    case False
    with assms(3) show ?thesis
      by (simp add: chain_nexts [OF assms(1,2)] nth_append)
  qed
qed

theorem exhausted_signal_amended_witness:
  "fst (nexts 3 (snd (chain_it empty_heap [[Val (5::int)], [Val 6]])) 0) ! 1 = Val 6
   \<and> fst (nexts 3 (snd (chain_it empty_heap [[Val (5::int)], [Val 6]])) 0) ! 2 = Undefined"
proof -
  let ?objects = "[[Val (5::int)], [Val 6]]"
  have clean: "\<forall>xs \<in> set ?objects. Undefined \<notin> set xs"
    by simp
  have ch: "chain_it (world []) ?objects = (0, snd (chain_it empty_heap ?objects))"
    using chain_it_fst [of empty_heap ?objects]
    by (simp add: world_Nil prod_eq_iff empty_heap_def)
  from exhausted_signal_amended [OF clean ch, of 1 3]
    exhausted_signal_amended [OF clean ch, of 2 3]
  show ?thesis by simp
qed

text \<open>
  C7, as the specification states it: on a chain of three empty sources one call of
  \<open>next\<close> nests four activations of \<open>next\<close>, on a chain of one empty source two. The
  skipping of exhausted sub-iterators is the recursive call of line 100.
\<close>

theorem next_recursion_counterexample:
  "next_depth (snd (chain_it empty_heap ([[], [], []] :: int jsval list list))) 0 = 4
   \<and> next_depth (snd (chain_it empty_heap ([[]] :: int jsval list list))) 0 = 2"
  by code_simp

text \<open>
  C7, amended. Every call of \<open>next\<close> terminates (\<open>ChainIterator_next\<close> is a total
  function). In every heap that a run builds, the number of activations of \<open>next\<close> that
  one call nests is one more than the number of consecutive sub-iterators, from the
  one the chain reads next, that signal exhaustion; it is at most one more than the
  number of sub-iterators the chain has left; and on a chain of \<open>k\<close> empty sources it is
  \<open>k + 1\<close>: the depth of the recursion grows with the number of consecutive exhausted
  sub-iterators.
\<close>

theorem next_recursion_amended:
  assumes "c < chain_count (world cs)"
  shows "next_depth (world cs) c
      = Suc (length (takeWhile (signals_exhaustion (world cs)) (upcoming (world cs) c)))
    \<and> next_depth (world cs) c \<le> Suc (length (upcoming (world cs) c))
    \<and> next_depth (snd (chain_it (world cs) (replicate k [])))
        (fst (chain_it (world cs) (replicate k []))) = Suc k"
proof -
  note wf = wf_world [of cs]
  have d: "next_depth (world cs) c
      = Suc (length (takeWhile (signals_exhaustion (world cs)) (upcoming (world cs) c)))"
    by (rule next_depth_heap [OF wf assms])
  have "length (takeWhile (signals_exhaustion (world cs)) (upcoming (world cs) c))
      \<le> length (upcoming (world cs) c)"
    by (rule length_takeWhile_le)
  with d have b: "next_depth (world cs) c \<le> Suc (length (upcoming (world cs) c))"
    by simp
  let ?c = "fst (chain_it (world cs) (replicate k []))"
  let ?h = "snd (chain_it (world cs) (replicate k []))"
  have "chain_it (world cs) (replicate k []) = (?c, ?h)" by simp
  from chain_it_created [OF this] have cr: "created (world cs) (replicate k []) ?c ?h" .
  have wf': "wf_heap ?h" and c': "?c < chain_count ?h" and v: "view ?h ?c = (None, replicate k [])"
    using created_wf [OF wf cr] created_view(1) [OF wf cr] cr
    by (simp_all add: created_def)
  have "takeWhile exhausted (replicate k ([] :: 'a jsval list)) = replicate k []"
    by (induction k) (simp_all add: exhausted_def)
  then have "next_depth ?h ?c = Suc k"
    by (simp add: next_depth_stack [OF wf' c'] v stack_def)
  with d b show ?thesis by simp
qed

theorem next_recursion_amended_witness:
  "next_depth (world after_two) 0 = 4"
proof -
  have c: "0 < chain_count (world after_two)"
    by code_simp
  have "length (takeWhile (signals_exhaustion (world after_two)) (upcoming (world after_two) 0)) = 3"
    by code_simp
  with next_recursion_amended [OF c] show ?thesis
    by simp
qed

end
